theory Spec2Isabelle
  imports Complex_Main
begin

section \<open>The game board component\<close>

text \<open>
  A shallow embedding of \<^verbatim>\<open>src/app/game-board/game-board.component.ts\<close>.

  The grid is a JavaScript array of arrays of strings. The elements of a row are a
  list: a cell is \<open>Some s\<close> for the string \<open>s\<close> (the empty string is the empty cell)
  and \<open>None\<close> for a hole of the array, which reads as \<^verbatim>\<open>undefined\<close>; holes appear
  only when a write lands beyond the end of a row. The search functions read and write
  the cells at the rows and columns 0, 1 and 2; they are modelled on boards on which
  these cells exist (\<open>wf_board\<close>). The two places where an index comes from outside the
  search (\<open>makeMove\<close> and \<open>aiMove\<close>) spell out what JavaScript does with any number
  used as an index.
\<close>

type_synonym cell = "string option"
type_synonym board = "cell list list"
type_synonym move = "int \<times> int"

definition wf_board :: "board \<Rightarrow> bool" where
  "wf_board board \<longleftrightarrow> length board = 3 \<and> list_all (\<lambda>row. length row = 3) board"

text \<open>\<^verbatim>\<open>Array(3).fill(null).map(() => Array(3).fill(''))\<close>\<close>

definition emptyBoard :: board where
  "emptyBoard = map (\<lambda>_. replicate 3 (Some '''')) (replicate 3 ())"

text \<open>The read \<^verbatim>\<open>board[row][col]\<close> and the write \<^verbatim>\<open>board[row][col] = v\<close> of the search.\<close>

definition cell_at :: "board \<Rightarrow> int \<Rightarrow> int \<Rightarrow> cell" where
  "cell_at board row col = board ! nat row ! nat col"

definition set_cell :: "board \<Rightarrow> int \<Rightarrow> int \<Rightarrow> string \<Rightarrow> board" where
  "set_cell board row col v = board[nat row := (board ! nat row)[nat col := Some v]]"

subsection \<open>Numbers\<close>

text \<open>
  A score is a JavaScript number: an integer, or one of the two infinities that the
  loops start from.
\<close>

datatype number = NegInf | Fin int | PosInf

fun num_gt :: "number \<Rightarrow> number \<Rightarrow> bool" where
  "num_gt NegInf _ = False"
| "num_gt (Fin a) NegInf = True"
| "num_gt (Fin a) (Fin b) = (a > b)"
| "num_gt (Fin a) PosInf = False"
| "num_gt PosInf PosInf = False"
| "num_gt PosInf _ = True"

definition num_max :: "number \<Rightarrow> number \<Rightarrow> number" where
  "num_max a b = (if num_gt b a then b else a)"

definition num_min :: "number \<Rightarrow> number \<Rightarrow> number" where
  "num_min a b = (if num_gt a b then b else a)"

subsection \<open>Rules\<close>

definition winningCombinations :: "move list list" where
  "winningCombinations =
    [[(0, 0), (0, 1), (0, 2)],
     [(1, 0), (1, 1), (1, 2)],
     [(2, 0), (2, 1), (2, 2)],
     [(0, 0), (1, 0), (2, 0)],
     [(0, 1), (1, 1), (2, 1)],
     [(0, 2), (1, 2), (2, 2)],
     [(0, 0), (1, 1), (2, 2)],
     [(0, 2), (1, 1), (2, 0)]]"

definition checkWin :: "board \<Rightarrow> bool" where
  "checkWin board =
     list_ex (\<lambda>combination.
        list_all (\<lambda>(row, col). cell_at board row col = Some ''O'') combination \<or>
        list_all (\<lambda>(row, col). cell_at board row col = Some ''X'') combination)
       winningCombinations"

text \<open>
  \<^verbatim>\<open>every\<close> does not call its argument on a hole, so a hole counts as not empty;
  \<open>None \<noteq> Some ''''\<close> says the same.
\<close>

definition isDraw :: "board \<Rightarrow> bool" where
  "isDraw board = list_all (\<lambda>row. list_all (\<lambda>cell. cell \<noteq> Some '''') row) board"

definition getAvailableMoves :: "board \<Rightarrow> move list" where
  "getAvailableMoves board =
     concat (map (\<lambda>row.
       concat (map (\<lambda>col. if cell_at board row col = Some '''' then [(row, col)] else [])
         [0, 1, 2]))
       [0, 1, 2])"

subsection \<open>Search\<close>

text \<open>
  \<open>minimax\<close> writes to the board it is given and undoes each write, so the model passes
  the board through and returns it with the score. The first argument bounds the number
  of nested calls of \<open>minimax\<close>: with none left the result is \<open>None\<close>.

  The depth is the integer that the search counts: \<open>getBestMove\<close> starts it at 0 and
  each nested call adds 1, so it stays between 0 and 9. On such integers (and on every
  integer below \<open>2\<^sup>5\<^sup>3\<close> in magnitude) the arithmetic of JavaScript numbers is the
  arithmetic of \<open>int\<close>.
\<close>

fun minimax :: "nat \<Rightarrow> board \<Rightarrow> int \<Rightarrow> bool \<Rightarrow> string \<Rightarrow> string \<Rightarrow> (number \<times> board) option"
  and minimax_loop ::
    "nat \<Rightarrow> move list \<Rightarrow> board \<Rightarrow> int \<Rightarrow> bool \<Rightarrow> string \<Rightarrow> string \<Rightarrow> number \<Rightarrow> (number \<times> board) option"
where
  "minimax 0 board depth isMaximizing aiSymbol playerSymbol = None"
| "minimax (Suc fuel) board depth isMaximizing aiSymbol playerSymbol =
     (if checkWin board then
        Some (Fin (if isMaximizing then - 10 + depth else 10 - depth), board)
      else if isDraw board then Some (Fin 0, board)
      else minimax_loop fuel (getAvailableMoves board) board depth isMaximizing
             aiSymbol playerSymbol (if isMaximizing then NegInf else PosInf))"
| "minimax_loop fuel [] board depth isMaximizing aiSymbol playerSymbol bestScore =
     Some (bestScore, board)"
| "minimax_loop fuel ((row, col) # moves) board depth isMaximizing aiSymbol playerSymbol bestScore =
     (case minimax fuel
             (set_cell board row col (if isMaximizing then aiSymbol else playerSymbol))
             (depth + 1) (\<not> isMaximizing) aiSymbol playerSymbol of
        None \<Rightarrow> None
      | Some (score, board') \<Rightarrow>
          minimax_loop fuel moves (set_cell board' row col '''') depth isMaximizing
            aiSymbol playerSymbol
            (if isMaximizing then num_max score bestScore else num_min score bestScore))"

fun getBestMove_loop ::
    "nat \<Rightarrow> move list \<Rightarrow> board \<Rightarrow> string \<Rightarrow> string \<Rightarrow> move \<Rightarrow> number \<Rightarrow> (move \<times> board) option"
where
  "getBestMove_loop fuel [] board aiSymbol playerSymbol bestMove bestScore =
     Some (bestMove, board)"
| "getBestMove_loop fuel ((row, col) # moves) board aiSymbol playerSymbol bestMove bestScore =
     (case minimax fuel (set_cell board row col aiSymbol) 0 False aiSymbol playerSymbol of
        None \<Rightarrow> None
      | Some (score, board') \<Rightarrow>
          (if num_gt score bestScore then
             getBestMove_loop fuel moves (set_cell board' row col '''') aiSymbol playerSymbol
               (row, col) score
           else
             getBestMove_loop fuel moves (set_cell board' row col '''') aiSymbol playerSymbol
               bestMove bestScore))"

definition getBestMove :: "nat \<Rightarrow> board \<Rightarrow> string \<Rightarrow> (move \<times> board) option" where
  "getBestMove fuel board aiSymbol =
     getBestMove_loop fuel (getAvailableMoves board) board aiSymbol
       (if aiSymbol = ''X'' then ''O'' else ''X'') (- 1, - 1) NegInf"

subsection \<open>The component and its operations\<close>

text \<open>
  The fields of \<^verbatim>\<open>GameBoardComponent\<close>. Besides its elements, a row of the grid can hold
  properties that are not elements: \<open>rowProps\<close> lists them, newest first, as the row,
  the number used as the key, and the value. The grid itself never gets one, since the
  code only assigns to \<^verbatim>\<open>this.grid[row][col]\<close>.
\<close>

text \<open>
  A JavaScript number used as an index: a real number (the doubles are among them),
  or one of the three values that are not.
\<close>

datatype coordinate = Finite real | NaN | PlusInfinity | MinusInfinity

record state =
  grid :: board
  rowProps :: "((nat \<times> coordinate) \<times> string) list"
  currentPlayer :: string
  gameStatus :: string
  selectedPlayer :: string
  gameStarted :: bool
  gameMode :: string

text \<open>
  An operation takes the component and gives the component it leaves: returned normally,
  or left behind by a throw. An operation that reaches the search takes the bound on
  nested calls as well, and its result is \<open>None\<close> when the bound is too small.
\<close>

datatype error = TypeError

datatype outcome = Returns state | Throws error state

text \<open>
  A number is an array index when it is an integer from 0 to \<open>2\<^sup>3\<^sup>2 - 2\<close>; every other
  number names a plain property.
\<close>

definition array_index :: "coordinate \<Rightarrow> nat option" where
  "array_index x =
     (case x of
        Finite r \<Rightarrow>
          if of_int \<lfloor>r\<rfloor> = r \<and> 0 \<le> r \<and> r < 4294967295 then Some (nat \<lfloor>r\<rfloor>) else None
      | _ \<Rightarrow> None)"


definition js_set :: "'a option list \<Rightarrow> nat \<Rightarrow> 'a \<Rightarrow> 'a option list" where
  "js_set xs i v =
     (if i < length xs then xs[i := Some v]
      else xs @ replicate (i - length xs) None @ [Some v])"

text \<open>
  \<^verbatim>\<open>this.grid[row]\<close>: the position of the row when \<open>row\<close> is the index of one, and
  \<open>None\<close> for \<^verbatim>\<open>undefined\<close>.
\<close>

definition row_at :: "state \<Rightarrow> coordinate \<Rightarrow> nat option" where
  "row_at s row =
     (case array_index row of
        None \<Rightarrow> None
      | Some r \<Rightarrow> if r < length (grid s) then Some r else None)"


definition write_cell :: "state \<Rightarrow> nat \<Rightarrow> coordinate \<Rightarrow> string \<Rightarrow> state" where
  "write_cell s r col v =
     (case array_index col of
        Some c \<Rightarrow> s\<lparr>grid := (grid s)[r := js_set (grid s ! r) c v]\<rparr>
      | None \<Rightarrow> s\<lparr>rowProps := ((r, col), v) # rowProps s\<rparr>)"

definition resetGame :: "state \<Rightarrow> state" where
  "resetGame s =
     s\<lparr>grid := emptyBoard, rowProps := [],
       currentPlayer := (if selectedPlayer s \<noteq> '''' then selectedPlayer s else ''X''),
       gameStatus := ''Playing''\<rparr>"

text \<open>The field initialisers followed by the constructor body.\<close>

definition new_component :: state where
  "new_component =
     resetGame \<lparr>grid = [], rowProps = [], currentPlayer = '''', gameStatus = '''',
                selectedPlayer = '''', gameStarted = False, gameMode = ''''\<rparr>"

definition selectPlayer :: "state \<Rightarrow> string \<Rightarrow> state" where
  "selectPlayer s player = s\<lparr>selectedPlayer := player\<rparr>"

definition setGameMode :: "state \<Rightarrow> string \<Rightarrow> state" where
  "setGameMode s mode = s\<lparr>gameMode := mode, gameStarted := False\<rparr>"

text \<open>
  \<open>aiMove\<close> runs the search on the grid, which leaves the grid it returns, and writes at
  the pair of numbers that \<open>getBestMove\<close> has returned; the write throws when the row
  does not exist.
\<close>

definition aiMove :: "nat \<Rightarrow> state \<Rightarrow> outcome option" where
  "aiMove fuel s =
     (let aiSymbol = (if selectedPlayer s = ''X'' then ''O'' else ''X'') in
      case getBestMove fuel (grid s) aiSymbol of
        None \<Rightarrow> None
      | Some ((row, col), board) \<Rightarrow>
          let s0 = s\<lparr>grid := board\<rparr> in
          (case row_at s0 (Finite (of_int row)) of
             None \<Rightarrow> Some (Throws TypeError s0)
           | Some r \<Rightarrow>
               let s1 = write_cell s0 r (Finite (of_int col)) aiSymbol in
               if checkWin (grid s1) then
                 Some (Returns (s1\<lparr>gameStatus := aiSymbol @ '' Wins!''\<rparr>))
               else if isDraw (grid s1) then Some (Returns (s1\<lparr>gameStatus := ''Draw!''\<rparr>))
               else Some (Returns (s1\<lparr>currentPlayer := selectedPlayer s1\<rparr>))))"


definition startGame :: "nat \<Rightarrow> state \<Rightarrow> outcome option" where
  "startGame fuel s =
     (if selectedPlayer s \<noteq> '''' then
        let s1 = s\<lparr>gameStarted := True\<rparr> in
        if gameMode s1 = ''single'' then
          if selectedPlayer s1 = ''X'' then
            Some (Returns (resetGame (s1\<lparr>currentPlayer := ''X''\<rparr>)))
          else
            (case aiMove fuel (s1\<lparr>currentPlayer := ''X''\<rparr>) of
               None \<Rightarrow> None
             | Some (Throws e s2) \<Rightarrow> Some (Throws e s2)
             | Some (Returns s2) \<Rightarrow> Some (Returns (resetGame s2)))
        else Some (Returns (resetGame s1))
      else Some (Returns s))"

definition resetPage :: "state \<Rightarrow> state" where
  "resetPage s = (resetGame s)\<lparr>selectedPlayer := '''', gameStarted := False, gameMode := ''''\<rparr>"

subsection \<open>Auxiliary definitions\<close>

text \<open>The coordinates that the two nested loops of \<open>getAvailableMoves\<close> visit, in order.\<close>

definition cells :: "move list" where
  "cells = [(0,0),(0,1),(0,2),(1,0),(1,1),(1,2),(2,0),(2,1),(2,2)]"

text \<open>The update of the best score in the loop of \<open>minimax\<close>.\<close>

definition best_step :: "bool \<Rightarrow> number \<Rightarrow> number \<Rightarrow> number" where
  "best_step isMaximizing score bestScore =
     (if isMaximizing then num_max score bestScore else num_min score bestScore)"

text \<open>The board of scenario A, and a full board that holds a completed row of X.\<close>

definition scenarioA :: board where
  "scenarioA = [[Some ''X'', Some ''O'', Some ''X''],
                [Some ''O'', Some ''X'', Some ''O''],
                [Some '''', Some '''', Some '''']]"

definition fullWon :: board where
  "fullWon = [[Some ''X'', Some ''X'', Some ''X''],
              [Some ''O'', Some ''O'', Some ''X''],
              [Some ''X'', Some ''O'', Some ''O'']]"

text \<open>The board of scenario C: full, with no completed line.\<close>

definition scenarioC :: board where
  "scenarioC = [[Some ''X'', Some ''O'', Some ''X''],
                [Some ''X'', Some ''O'', Some ''O''],
                [Some ''O'', Some ''X'', Some ''X'']]"

text \<open>The test of \<open>checkWin\<close> for one of the two symbols.\<close>

definition hasLine :: "string \<Rightarrow> board \<Rightarrow> bool" where
  "hasLine symbol board =
     list_ex (\<lambda>combination.
        list_all (\<lambda>(row, col). cell_at board row col = Some symbol) combination)
       winningCombinations"

text \<open>
  A bound on a score: \<open>in_bound True k x\<close> says that \<open>x\<close> is at least \<open>k\<close>, and
  \<open>in_bound False k x\<close> that it is at most \<open>k\<close>.
\<close>

definition in_bound :: "bool \<Rightarrow> int \<Rightarrow> number \<Rightarrow> bool" where
  "in_bound ge k x = (if ge then \<not> num_gt (Fin k) x else \<not> num_gt x (Fin k))"

text \<open>
  A decision procedure for such a bound on the score that \<open>minimax\<close> computes. It
  visits the moves in the order of \<open>minimax\<close> and stops at the first move that settles
  the bound: at a node where every move has to keep the bound (the maximum is to stay
  below, or the minimum above) at the first move that breaks it, at the other nodes at
  the first move that reaches it.
\<close>

fun score_bound ::
    "nat \<Rightarrow> bool \<Rightarrow> int \<Rightarrow> board \<Rightarrow> int \<Rightarrow> bool \<Rightarrow> string \<Rightarrow> string \<Rightarrow> bool"
  and score_bound_loop ::
    "nat \<Rightarrow> bool \<Rightarrow> int \<Rightarrow> move list \<Rightarrow> board \<Rightarrow> int \<Rightarrow> bool \<Rightarrow> string \<Rightarrow> string \<Rightarrow> bool"
where
  "score_bound 0 ge k board depth isMaximizing aiSymbol playerSymbol = False"
| "score_bound (Suc fuel) ge k board depth isMaximizing aiSymbol playerSymbol =
     (if checkWin board then
        in_bound ge k (Fin (if isMaximizing then - 10 + depth else 10 - depth))
      else if isDraw board then in_bound ge k (Fin 0)
      else score_bound_loop fuel ge k (getAvailableMoves board) board depth isMaximizing
             aiSymbol playerSymbol)"
| "score_bound_loop fuel ge k [] board depth isMaximizing aiSymbol playerSymbol =
     (isMaximizing \<noteq> ge)"
| "score_bound_loop fuel ge k ((row, col) # moves) board depth isMaximizing aiSymbol playerSymbol =
     (if score_bound fuel ge k
           (set_cell board row col (if isMaximizing then aiSymbol else playerSymbol))
           (depth + 1) (\<not> isMaximizing) aiSymbol playerSymbol
      then (if isMaximizing \<noteq> ge
            then score_bound_loop fuel ge k moves board depth isMaximizing aiSymbol playerSymbol
            else True)
      else (if isMaximizing \<noteq> ge then False
            else score_bound_loop fuel ge k moves board depth isMaximizing aiSymbol playerSymbol))"

subsection \<open>Forced wins\<close>

text \<open>
  The spec speaks of forced wins and of how fast they are. Following its words, and
  independently of any score: the side \<open>me\<close> wins within \<open>n\<close> plies from a board when it
  has a completed line, or, the other side having none, when it is to move and some
  available move leads to a board from which it wins within \<open>n - 1\<close> plies, or the other
  side is to move, has an available move, and each of its moves leads to such a board.
  \<open>forced_win_in n\<close> says that \<open>n\<close> is the least such number: the win takes
  exactly \<open>n\<close> plies when the winner plays its fastest win and the loser its slowest loss.
\<close>

fun forced_win :: "nat \<Rightarrow> board \<Rightarrow> bool \<Rightarrow> string \<Rightarrow> string \<Rightarrow> bool" where
  "forced_win 0 board myTurn me other = hasLine me board"
| "forced_win (Suc n) board myTurn me other =
     (if hasLine me board then True
      else if hasLine other board then False
      else if myTurn then
        list_ex (\<lambda>m. forced_win n (set_cell board (fst m) (snd m) me) False me other)
          (getAvailableMoves board)
      else
        getAvailableMoves board \<noteq> [] \<and>
        list_all (\<lambda>m. forced_win n (set_cell board (fst m) (snd m) other) True me other)
          (getAvailableMoves board))"

definition forced_win_in :: "nat \<Rightarrow> board \<Rightarrow> bool \<Rightarrow> string \<Rightarrow> string \<Rightarrow> bool" where
  "forced_win_in n board myTurn me other =
     (forced_win n board myTurn me other \<and>
      (case n of 0 \<Rightarrow> True | Suc k \<Rightarrow> \<not> forced_win k board myTurn me other))"

section \<open>Boards\<close>

lemma length3_conv: "length xs = 3 \<longleftrightarrow> (\<exists>a b c. xs = [a, b, c])"
  by (auto simp: numeral_3_eq_3 length_Suc_conv)

lemma wf_board_conv:
  "wf_board board \<longleftrightarrow>
     (\<exists>a b c d e f g h i. board = [[a, b, c], [d, e, f], [g, h, i]])"
proof
  assume "wf_board board"
  then obtain r0 r1 r2 where b: "board = [r0, r1, r2]"
    and l: "length r0 = 3" "length r1 = 3" "length r2 = 3"
    by (auto simp: wf_board_def length3_conv)
  from l obtain a b c d e f g h i where "r0 = [a, b, c]" "r1 = [d, e, f]" "r2 = [g, h, i]"
    unfolding length3_conv by blast
  with b show "\<exists>a b c d e f g h i. board = [[a, b, c], [d, e, f], [g, h, i]]" by blast
next
  assume "\<exists>a b c d e f g h i. board = [[a, b, c], [d, e, f], [g, h, i]]"
  then show "wf_board board" by (auto simp: wf_board_def)
qed

lemma wf_emptyBoard: "wf_board emptyBoard"
  by (simp add: wf_board_def emptyBoard_def numeral_3_eq_3)

lemma wf_board_row: "wf_board board \<Longrightarrow> n < 3 \<Longrightarrow> length (board ! n) = 3"
  by (simp add: wf_board_def list_all_length)

lemma wf_set_cell:
  assumes "wf_board board"
  shows "wf_board (set_cell board row col v)"
proof -
  have len: "length board = 3" and rows: "\<And>n. n < 3 \<Longrightarrow> length (board ! n) = 3"
    using assms by (simp_all add: wf_board_def list_all_length)
  have "length (set_cell board row col v ! n) = 3" if "n < 3" for n
    using that len rows [of n] by (cases "n = nat row") (simp_all add: set_cell_def)
  then show ?thesis
    using len by (simp add: wf_board_def list_all_length set_cell_def)
qed

lemma set_cells: "set cells = {0, 1, 2} \<times> {0, 1, 2}"
  unfolding cells_def by auto

lemma distinct_cells: "distinct cells"
  by (simp add: cells_def)

lemma in_cells_nat:
  assumes "(row, col) \<in> set cells"
  shows "nat row < 3" "nat col < 3" "0 \<le> row" "0 \<le> col"
  using assms unfolding set_cells by auto

lemma getAvailableMoves_filter:
  "getAvailableMoves board = filter (\<lambda>(row, col). cell_at board row col = Some '''') cells"
  by (simp add: getAvailableMoves_def cells_def)

lemma cell_at_set_cell:
  assumes "wf_board board" "(row, col) \<in> set cells" "(row', col') \<in> set cells"
  shows "cell_at (set_cell board row col v) row' col' =
     (if row' = row \<and> col' = col then Some v else cell_at board row' col')"
proof -
  note a = in_cells_nat [OF assms(2)] and b = in_cells_nat [OF assms(3)]
  have len: "length board = 3" using assms(1) by (simp add: wf_board_def)
  have r: "nat row < length board" "nat col < length (board ! nat row)"
    using a(1,2) len wf_board_row [OF assms(1) a(1)] by simp_all
  have ne: "row' \<noteq> row \<Longrightarrow> nat row \<noteq> nat row'" "col' \<noteq> col \<Longrightarrow> nat col \<noteq> nat col'"
    using a(3,4) b(3,4) by (simp_all add: eq_nat_nat_iff)
  show ?thesis
  proof (cases "row' = row")
    case True
    then show ?thesis
      using r ne(2) by (cases "col' = col") (simp_all add: cell_at_def set_cell_def)
  next
    case False
    then show ?thesis
      using r ne(1) by (simp add: cell_at_def set_cell_def)
  qed
qed

lemma set_cell_undo:
  assumes "cell_at board row col = Some ''''"
  shows "set_cell (set_cell board row col v) row col '''' = board"
proof (cases "nat row < length board")
  case True
  have "(board ! nat row)[nat col := Some ''''] = board ! nat row"
    using assms list_update_id [of "board ! nat row" "nat col"] by (simp add: cell_at_def)
  then show ?thesis using True by (simp add: set_cell_def)
next
  case False
  then show ?thesis by (simp add: set_cell_def list_update_beyond)
qed

lemma moves_in_cells: "m \<in> set (getAvailableMoves board) \<Longrightarrow> m \<in> set cells"
  by (simp add: getAvailableMoves_filter)

lemma moves_empty_cell:
  "(row, col) \<in> set (getAvailableMoves board) \<Longrightarrow> cell_at board row col = Some ''''"
  by (simp add: getAvailableMoves_filter)

lemma length_filter_remove1:
  "distinct xs \<Longrightarrow> x \<in> set xs \<Longrightarrow> P x \<Longrightarrow> \<not> Q x \<Longrightarrow>
   (\<And>y. y \<in> set xs \<Longrightarrow> y \<noteq> x \<Longrightarrow> Q y = P y) \<Longrightarrow>
   Suc (length (filter Q xs)) = length (filter P xs)"
proof (induction xs)
  case Nil
  then show ?case by simp
next
  case (Cons y ys)
  show ?case
  proof (cases "y = x")
    case True
    then have "x \<notin> set ys" using Cons.prems(1) by simp
    then have "filter Q ys = filter P ys"
      using Cons.prems(5) by (intro filter_cong) auto
    then show ?thesis using True Cons.prems(3,4) by simp
  next
    case False
    then have "Suc (length (filter Q ys)) = length (filter P ys)"
      using Cons by auto
    moreover have "Q y = P y" using Cons.prems(5) False by simp
    ultimately show ?thesis by simp
  qed
qed

lemma moves_decrease:
  assumes "wf_board board" "(row, col) \<in> set (getAvailableMoves board)" "v \<noteq> ''''"
  shows "Suc (length (getAvailableMoves (set_cell board row col v))) =
         length (getAvailableMoves board)"
proof -
  have c: "(row, col) \<in> set cells" and e: "cell_at board row col = Some ''''"
    using assms(2) by (simp_all add: getAvailableMoves_filter)
  show ?thesis
    unfolding getAvailableMoves_filter
  proof (rule length_filter_remove1 [OF distinct_cells c])
    show "case (row, col) of (row, col) \<Rightarrow> cell_at board row col = Some ''''"
      using e by simp
    show "\<not> (case (row, col) of (r, c) \<Rightarrow> cell_at (set_cell board row col v) r c = Some '''')"
      using assms(3) by (simp add: cell_at_set_cell [OF assms(1) c c])
    show "(case y of (r, c) \<Rightarrow> cell_at (set_cell board row col v) r c = Some '''') =
          (case y of (r, c) \<Rightarrow> cell_at board r c = Some '''')"
      if y: "y \<in> set cells" "y \<noteq> (row, col)" for y
    proof -
      obtain r' c' where yeq: "y = (r', c')" by (cases y)
      have "cell_at (set_cell board row col v) r' c' = cell_at board r' c'"
        using cell_at_set_cell [OF assms(1) c, of r' c' v] y unfolding yeq by auto
      then show ?thesis unfolding yeq by simp
    qed
  qed
qed

lemma isDraw_iff_no_moves:
  assumes "wf_board board"
  shows "isDraw board \<longleftrightarrow> getAvailableMoves board = []"
proof -
  obtain a b c d e f g h i where "board = [[a, b, c], [d, e, f], [g, h, i]]"
    using assms unfolding wf_board_conv by blast
  then show ?thesis
    by (simp add: isDraw_def getAvailableMoves_filter filter_empty_conv cells_def cell_at_def)
qed

lemma length_moves_le: "length (getAvailableMoves board) \<le> 9"
proof -
  have "length (getAvailableMoves board) \<le> length cells"
    unfolding getAvailableMoves_filter by (rule length_filter_le)
  then show ?thesis by (simp add: cells_def)
qed

lemma minimax_loop_fold:
  assumes "\<And>row col. (row, col) \<in> set moves \<Longrightarrow> cell_at board row col = Some ''''"
    and "\<And>row col. (row, col) \<in> set moves \<Longrightarrow>
          minimax fuel (set_cell board row col (if isMaximizing then aiSymbol else playerSymbol))
            (depth + 1) (\<not> isMaximizing) aiSymbol playerSymbol =
          Some (val (row, col),
                set_cell board row col (if isMaximizing then aiSymbol else playerSymbol))"
  shows "minimax_loop fuel moves board depth isMaximizing aiSymbol playerSymbol bestScore =
         Some (foldl (\<lambda>best m. best_step isMaximizing (val m) best) bestScore moves, board)"
  using assms
proof (induction moves arbitrary: bestScore)
  case Nil
  then show ?case by simp
next
  case (Cons m moves)
  obtain row col where m: "m = (row, col)" by (cases m)
  have e: "cell_at board row col = Some ''''" using Cons.prems(1) m by simp
  have call: "minimax fuel (set_cell board row col (if isMaximizing then aiSymbol else playerSymbol))
            (depth + 1) (\<not> isMaximizing) aiSymbol playerSymbol =
          Some (val (row, col),
                set_cell board row col (if isMaximizing then aiSymbol else playerSymbol))"
    using Cons.prems(2) m by simp
  have rest: "minimax_loop fuel moves board depth isMaximizing aiSymbol playerSymbol b =
         Some (foldl (\<lambda>best m. best_step isMaximizing (val m) best) b moves, board)" for b
    using Cons.IH [of b] Cons.prems by simp
  show ?case
    unfolding m by (simp add: call set_cell_undo [OF e] rest best_step_def)
qed

lemma best_step_Fin:
  "\<exists>w. best_step isMaximizing (Fin v) (Fin b) = Fin w"
  by (simp add: best_step_def num_max_def num_min_def)

lemma best_step_init:
  "best_step isMaximizing (Fin v) (if isMaximizing then NegInf else PosInf) = Fin v"
  by (simp add: best_step_def num_max_def num_min_def)

lemma foldl_best_step_Fin:
  "\<exists>w. foldl (\<lambda>best m. best_step isMaximizing (Fin (val m)) best) (Fin b) moves = Fin w"
proof (induction moves arbitrary: b)
  case Nil
  then show ?case by simp
next
  case (Cons m moves)
  obtain w where "best_step isMaximizing (Fin (val m)) (Fin b) = Fin w"
    using best_step_Fin by blast
  then show ?case using Cons.IH [of w] by simp
qed

lemma foldl_best_step_init:
  assumes "moves \<noteq> []"
  shows "\<exists>w. foldl (\<lambda>best m. best_step isMaximizing (Fin (val m)) best)
               (if isMaximizing then NegInf else PosInf) moves = Fin w"
proof -
  obtain m ms where "moves = m # ms" using assms by (cases moves) auto
  then show ?thesis
    using foldl_best_step_Fin [of isMaximizing val "val m" ms]
    by (simp add: best_step_init)
qed

lemma minimax_total:
  assumes sym: "aiSymbol \<noteq> ''''" "playerSymbol \<noteq> ''''"
  shows "wf_board board \<Longrightarrow> length (getAvailableMoves board) < fuel \<Longrightarrow>
         \<exists>v. minimax fuel board depth isMaximizing aiSymbol playerSymbol = Some (Fin v, board)"
proof (induction fuel arbitrary: board depth isMaximizing)
  case 0
  then show ?case by simp
next
  case (Suc fuel)
  show ?case
  proof (cases "checkWin board \<or> isDraw board")
    case True
    then show ?thesis by auto
  next
    case False
    let ?s = "if isMaximizing then aiSymbol else playerSymbol"
    let ?moves = "getAvailableMoves board"
    have s: "?s \<noteq> ''''" using sym by simp
    have ne: "?moves \<noteq> []"
      using False isDraw_iff_no_moves [OF Suc.prems(1)] by simp
    have "\<exists>v. minimax fuel (set_cell board row col ?s) (depth + 1) (\<not> isMaximizing)
                 aiSymbol playerSymbol = Some (Fin v, set_cell board row col ?s)"
      if "(row, col) \<in> set ?moves" for row col
    proof (rule Suc.IH)
      show "wf_board (set_cell board row col ?s)" by (rule wf_set_cell [OF Suc.prems(1)])
      show "length (getAvailableMoves (set_cell board row col ?s)) < fuel"
        using moves_decrease [OF Suc.prems(1) that s] Suc.prems(2) by linarith
    qed
    then have "\<forall>m\<in>set ?moves. \<exists>v. minimax fuel (set_cell board (fst m) (snd m) ?s) (depth + 1)
                 (\<not> isMaximizing) aiSymbol playerSymbol =
                 Some (Fin v, set_cell board (fst m) (snd m) ?s)"
      by auto
    then obtain val where val: "\<forall>m\<in>set ?moves.
        minimax fuel (set_cell board (fst m) (snd m) ?s) (depth + 1)
                 (\<not> isMaximizing) aiSymbol playerSymbol =
                 Some (Fin (val m), set_cell board (fst m) (snd m) ?s)"
      by (rule bchoice [THEN exE])
    have loop: "minimax_loop fuel ?moves board depth isMaximizing aiSymbol playerSymbol best =
         Some (foldl (\<lambda>best m. best_step isMaximizing (Fin (val m)) best) best ?moves, board)"
      for best
    proof (rule minimax_loop_fold [where val = "\<lambda>m. Fin (val m)"])
      show "cell_at board row col = Some ''''" if "(row, col) \<in> set ?moves" for row col
        using that by (rule moves_empty_cell)
      show "minimax fuel (set_cell board row col ?s) (depth + 1) (\<not> isMaximizing)
              aiSymbol playerSymbol = Some (Fin (val (row, col)), set_cell board row col ?s)"
        if "(row, col) \<in> set ?moves" for row col
        using val that by force
    qed
    obtain w where "foldl (\<lambda>best m. best_step isMaximizing (Fin (val m)) best)
               (if isMaximizing then NegInf else PosInf) ?moves = Fin w"
      using foldl_best_step_init [OF ne] by blast
    then show ?thesis using False by (simp add: loop)
  qed
qed

lemma Max_insert_insert:
  fixes v a :: int
  assumes "finite S"
  shows "Max (insert v (insert a S)) = max a (Max (insert v S))"
proof -
  have "insert v (insert a S) = insert a (insert v S)" by auto
  then show ?thesis using assms by simp
qed

lemma find_Some_ex:
  assumes "x \<in> set xs" "P x"
  shows "\<exists>y. find P xs = Some y"
proof (cases "find P xs")
  case None
  then have "\<not> (\<exists>x. x \<in> set xs \<and> P x)" using find_None_iff [of P xs] by blast
  then show ?thesis using assms by blast
next
  case (Some y)
  then show ?thesis by blast
qed

lemma getBestMove_loop_Fin:
  assumes "\<And>row col. (row, col) \<in> set moves \<Longrightarrow> cell_at board row col = Some ''''"
    and "\<And>row col. (row, col) \<in> set moves \<Longrightarrow>
          minimax fuel (set_cell board row col aiSymbol) 0 False aiSymbol playerSymbol =
          Some (Fin (sc (row, col)), set_cell board row col aiSymbol)"
  shows "getBestMove_loop fuel moves board aiSymbol playerSymbol bestMove (Fin v) =
         Some ((case find (\<lambda>m. sc m = Max (insert v (sc ` set moves)) \<and> v < sc m) moves of
                  Some m \<Rightarrow> m | None \<Rightarrow> bestMove), board)"
  using assms
proof (induction moves arbitrary: bestMove v)
  case Nil
  then show ?case by simp
next
  case (Cons m moves)
  obtain row col where m: "m = (row, col)" by (cases m)
  let ?S = "sc ` set moves"
  have fin: "finite ?S" by simp
  have e: "cell_at board row col = Some ''''" using Cons.prems(1) m by simp
  have call: "minimax fuel (set_cell board row col aiSymbol) 0 False aiSymbol playerSymbol =
          Some (Fin (sc m), set_cell board row col aiSymbol)"
    using Cons.prems(2) m by simp
  have rest: "getBestMove_loop fuel moves board aiSymbol playerSymbol bm (Fin w) =
         Some ((case find (\<lambda>m. sc m = Max (insert w ?S) \<and> w < sc m) moves of
                  Some m \<Rightarrow> m | None \<Rightarrow> bm), board)" for bm w
    using Cons.IH [of bm w] Cons.prems by simp
  have M: "Max (insert v (sc ` set (m # moves))) = max (sc m) (Max (insert v ?S))"
    using Max_insert_insert [OF fin] by simp
  have ge: "v \<le> Max (insert v ?S)" by simp
  show ?case
  proof (cases "v < sc m")
    case True
    have step: "getBestMove_loop fuel (m # moves) board aiSymbol playerSymbol bestMove (Fin v) =
        Some ((case find (\<lambda>x. sc x = Max (insert (sc m) ?S) \<and> sc m < sc x) moves of
                  Some x \<Rightarrow> x | None \<Rightarrow> m), board)"
      unfolding m using True by (simp add: call [unfolded m] set_cell_undo [OF e] rest m)
    have M2: "Max (insert v (sc ` set (m # moves))) = Max (insert (sc m) ?S)"
    proof -
      have "Max (insert v (insert (sc m) ?S)) = max v (Max (insert (sc m) ?S))"
        using fin by simp
      moreover have "sc m \<le> Max (insert (sc m) ?S)"
        by (rule Max_ge) (use fin in auto)
      then have "v \<le> Max (insert (sc m) ?S)"
        using True by linarith
      ultimately show ?thesis by simp
    qed
    show ?thesis
    proof (cases "sc m = Max (insert (sc m) ?S)")
      case top: True
      have "find (\<lambda>x. sc x = Max (insert (sc m) ?S) \<and> sc m < sc x) moves = None"
        using top by (auto simp: find_None_iff)
      then show ?thesis using step top True M2 by simp
    next
      case False
      moreover have "sc m \<le> Max (insert (sc m) ?S)"
        by (rule Max_ge) (use fin in auto)
      ultimately have lt: "sc m < Max (insert (sc m) ?S)"
        by linarith
      have "Max (insert (sc m) ?S) \<in> insert (sc m) ?S"
        using fin by (intro Max_in) auto
      then have "Max (insert (sc m) ?S) \<in> ?S" using False by auto
      then obtain y where y: "y \<in> set moves" "sc y = Max (insert (sc m) ?S)" by auto
      have "v < sc y" using y(2) lt True by linarith
      then obtain x where x:
        "find (\<lambda>x. sc x = Max (insert (sc m) ?S) \<and> v < sc x) moves = Some x"
        using find_Some_ex [of y moves "\<lambda>x. sc x = Max (insert (sc m) ?S) \<and> v < sc x"] y
        by blast
      have "find (\<lambda>x. sc x = Max (insert (sc m) ?S) \<and> sc m < sc x) moves =
            find (\<lambda>x. sc x = Max (insert (sc m) ?S) \<and> v < sc x) moves"
        using lt True by (intro find_cong) auto
      then show ?thesis using step False M2 x by simp
    qed
  next
    case False
    have step: "getBestMove_loop fuel (m # moves) board aiSymbol playerSymbol bestMove (Fin v) =
        Some ((case find (\<lambda>x. sc x = Max (insert v ?S) \<and> v < sc x) moves of
                  Some x \<Rightarrow> x | None \<Rightarrow> bestMove), board)"
      unfolding m using False by (simp add: call [unfolded m] set_cell_undo [OF e] rest m)
    have "Max (insert v (sc ` set (m # moves))) = Max (insert v ?S)"
      using M False ge by simp
    then show ?thesis using step False by simp
  qed
qed

lemma getBestMove_loop_first_max:
  assumes "\<And>row col. (row, col) \<in> set moves \<Longrightarrow> cell_at board row col = Some ''''"
    and "\<And>row col. (row, col) \<in> set moves \<Longrightarrow>
          minimax fuel (set_cell board row col aiSymbol) 0 False aiSymbol playerSymbol =
          Some (Fin (sc (row, col)), set_cell board row col aiSymbol)"
    and "moves \<noteq> []"
  shows "\<exists>m. getBestMove_loop fuel moves board aiSymbol playerSymbol bestMove NegInf =
               Some (m, board) \<and>
             find (\<lambda>m. sc m = Max (sc ` set moves)) moves = Some m"
proof -
  obtain m ms where ms: "moves = m # ms" using assms(3) by (cases moves) auto
  obtain row col where m: "m = (row, col)" by (cases m)
  let ?S = "sc ` set ms"
  let ?M = "Max (insert (sc m) ?S)"
  have fin: "finite ?S" by simp
  have e: "cell_at board row col = Some ''''" using assms(1) m ms by simp
  have call: "minimax fuel (set_cell board row col aiSymbol) 0 False aiSymbol playerSymbol =
          Some (Fin (sc m), set_cell board row col aiSymbol)"
    using assms(2) m ms by simp
  have rest: "getBestMove_loop fuel ms board aiSymbol playerSymbol m (Fin (sc m)) =
         Some ((case find (\<lambda>x. sc x = ?M \<and> sc m < sc x) ms of
                  Some x \<Rightarrow> x | None \<Rightarrow> m), board)"
    by (rule getBestMove_loop_Fin) (use assms(1,2) ms in auto)
  have step: "getBestMove_loop fuel moves board aiSymbol playerSymbol bestMove NegInf =
         Some ((case find (\<lambda>x. sc x = ?M \<and> sc m < sc x) ms of
                  Some x \<Rightarrow> x | None \<Rightarrow> m), board)"
    unfolding ms m by (simp add: call [unfolded m] set_cell_undo [OF e] rest [unfolded m])
  have Meq: "Max (sc ` set moves) = ?M" unfolding ms by simp
  show ?thesis
  proof (cases "sc m = ?M")
    case True
    have "find (\<lambda>x. sc x = ?M \<and> sc m < sc x) ms = None"
      using True by (auto simp: find_None_iff)
    moreover have "find (\<lambda>x. sc x = ?M) moves = Some m"
      unfolding ms using True by simp
    ultimately show ?thesis using step Meq by simp
  next
    case False
    moreover have "sc m \<le> ?M"
      by (rule Max_ge) (use fin in auto)
    ultimately have lt: "sc m < ?M"
      by linarith
    have "?M \<in> insert (sc m) ?S" using fin by (intro Max_in) auto
    then have "?M \<in> ?S" using False by auto
    then obtain y where y: "y \<in> set ms" "sc y = ?M" by auto
    then obtain x where x: "find (\<lambda>x. sc x = ?M) ms = Some x"
      using find_Some_ex [of y ms "\<lambda>x. sc x = ?M"] by blast
    have "find (\<lambda>x. sc x = ?M \<and> sc m < sc x) ms = find (\<lambda>x. sc x = ?M) ms"
      using lt by (intro find_cong) auto
    moreover have "find (\<lambda>x. sc x = ?M) moves = find (\<lambda>x. sc x = ?M) ms"
      unfolding ms using False by simp
    ultimately show ?thesis using step Meq x by simp
  qed
qed

lemma minimax_loop_mono_aux:
  assumes P: "\<And>board depth isMaximizing r.
      minimax n board depth isMaximizing aiSymbol playerSymbol = Some r \<Longrightarrow>
      minimax (Suc n) board depth isMaximizing aiSymbol playerSymbol = Some r"
  shows "minimax_loop n moves board depth isMaximizing aiSymbol playerSymbol best = Some r \<Longrightarrow>
         minimax_loop (Suc n) moves board depth isMaximizing aiSymbol playerSymbol best = Some r"
proof (induction moves arbitrary: board best)
  case Nil
  then show ?case by simp
next
  case (Cons m moves)
  obtain row col where m: "m = (row, col)" by (cases m)
  let ?b = "set_cell board row col (if isMaximizing then aiSymbol else playerSymbol)"
  obtain score board' where call:
    "minimax n ?b (depth + 1) (\<not> isMaximizing) aiSymbol playerSymbol = Some (score, board')"
    using Cons.prems unfolding m
    by (cases "minimax n ?b (depth + 1) (\<not> isMaximizing) aiSymbol playerSymbol") auto
  have call': "minimax (Suc n) ?b (depth + 1) (\<not> isMaximizing) aiSymbol playerSymbol =
      Some (score, board')"
    by (rule P [OF call])
  have "minimax_loop n moves (set_cell board' row col '''') depth isMaximizing aiSymbol playerSymbol
          (if isMaximizing then num_max score best else num_min score best) = Some r"
    using Cons.prems call unfolding m by simp
  then have "minimax_loop (Suc n) moves (set_cell board' row col '''') depth isMaximizing
          aiSymbol playerSymbol
          (if isMaximizing then num_max score best else num_min score best) = Some r"
    by (rule Cons.IH)
  then show ?case
    unfolding m minimax_loop.simps(2) call' by simp
qed

lemma minimax_Suc:
  "minimax n board depth isMaximizing aiSymbol playerSymbol = Some r \<Longrightarrow>
   minimax (Suc n) board depth isMaximizing aiSymbol playerSymbol = Some r"
proof (induction n arbitrary: board depth isMaximizing r)
  case 0
  then show ?case by simp
next
  case (Suc n)
  show ?case
  proof (cases "checkWin board \<or> isDraw board")
    case True
    then show ?thesis using Suc.prems by auto
  next
    case False
    then have "minimax_loop n (getAvailableMoves board) board depth isMaximizing
        aiSymbol playerSymbol (if isMaximizing then NegInf else PosInf) = Some r"
      using Suc.prems by simp
    then have "minimax_loop (Suc n) (getAvailableMoves board) board depth isMaximizing
        aiSymbol playerSymbol (if isMaximizing then NegInf else PosInf) = Some r"
      by (rule minimax_loop_mono_aux [rotated]) (rule Suc.IH)
    then show ?thesis using False by simp
  qed
qed

lemma minimax_fuel_mono:
  "minimax n board depth isMaximizing aiSymbol playerSymbol = Some r \<Longrightarrow> n \<le> n' \<Longrightarrow>
   minimax n' board depth isMaximizing aiSymbol playerSymbol = Some r"
proof -
  assume r: "minimax n board depth isMaximizing aiSymbol playerSymbol = Some r" and "n \<le> n'"
  then obtain k where k: "n' = n + k" using le_Suc_ex by blast
  have "minimax (n + k) board depth isMaximizing aiSymbol playerSymbol = Some r"
  proof (induction k)
    case 0
    show ?case using r by simp
  next
    case (Suc k)
    show ?case using minimax_Suc [OF Suc] by (simp only: add_Suc_right)
  qed
  then show ?thesis using k by simp
qed

lemma opponent_not_empty: "(if aiSymbol = ''X'' then ''O'' else ''X'') \<noteq> ''''"
  by simp

lemma getBestMove_empty:
  "getAvailableMoves board = [] \<Longrightarrow> getBestMove fuel board aiSymbol = Some ((- 1, - 1), board)"
  by (simp add: getBestMove_def)

lemma top_scores:
  assumes "wf_board board" "aiSymbol \<noteq> ''''" "playerSymbol \<noteq> ''''"
    and "length (getAvailableMoves board) \<le> fuel"
  shows "\<exists>sc. \<forall>m\<in>set (getAvailableMoves board).
           minimax fuel (set_cell board (fst m) (snd m) aiSymbol) 0 False aiSymbol playerSymbol =
           Some (Fin (sc m), set_cell board (fst m) (snd m) aiSymbol)"
proof (rule bchoice, rule ballI)
  fix m assume "m \<in> set (getAvailableMoves board)"
  then have m: "(fst m, snd m) \<in> set (getAvailableMoves board)" by simp
  show "\<exists>v. minimax fuel (set_cell board (fst m) (snd m) aiSymbol) 0 False aiSymbol playerSymbol =
           Some (Fin v, set_cell board (fst m) (snd m) aiSymbol)"
  proof (rule minimax_total [OF assms(2,3)])
    show "wf_board (set_cell board (fst m) (snd m) aiSymbol)"
      by (rule wf_set_cell [OF assms(1)])
    show "length (getAvailableMoves (set_cell board (fst m) (snd m) aiSymbol)) < fuel"
      using moves_decrease [OF assms(1) m assms(2)] assms(4) by linarith
  qed
qed

lemma getBestMove_first_max:
  assumes "wf_board board" "aiSymbol \<noteq> ''''" "getAvailableMoves board \<noteq> []"
    and "length (getAvailableMoves board) \<le> fuel"
    and sc: "\<And>row col. (row, col) \<in> set (getAvailableMoves board) \<Longrightarrow>
           minimax fuel (set_cell board row col aiSymbol) 0 False aiSymbol
             (if aiSymbol = ''X'' then ''O'' else ''X'') =
           Some (Fin (sc (row, col)), set_cell board row col aiSymbol)"
  shows "\<exists>m. getBestMove fuel board aiSymbol = Some (m, board) \<and>
             find (\<lambda>m. sc m = Max (sc ` set (getAvailableMoves board))) (getAvailableMoves board)
               = Some m"
  unfolding getBestMove_def
  by (rule getBestMove_loop_first_max [OF moves_empty_cell sc assms(3)])

lemma getBestMove_total:
  assumes "wf_board board" "aiSymbol \<noteq> ''''"
    and "length (getAvailableMoves board) \<le> fuel"
  shows "\<exists>m. getBestMove fuel board aiSymbol = Some (m, board) \<and>
             (m \<in> set (getAvailableMoves board) \<or>
              m = (- 1, - 1) \<and> getAvailableMoves board = [])"
proof (cases "getAvailableMoves board = []")
  case True
  then show ?thesis by (simp add: getBestMove_empty)
next
  case False
  let ?pl = "if aiSymbol = ''X'' then ''O'' else ''X''"
  obtain sc where sc: "\<forall>m\<in>set (getAvailableMoves board).
           minimax fuel (set_cell board (fst m) (snd m) aiSymbol) 0 False aiSymbol ?pl =
           Some (Fin (sc m), set_cell board (fst m) (snd m) aiSymbol)"
    using top_scores [OF assms(1,2) opponent_not_empty assms(3)] by blast
  have "\<exists>m. getBestMove fuel board aiSymbol = Some (m, board) \<and>
             find (\<lambda>m. sc m = Max (sc ` set (getAvailableMoves board))) (getAvailableMoves board)
               = Some m"
    by (rule getBestMove_first_max [OF assms(1,2) False assms(3)]) (use sc in force)
  then obtain m where m: "getBestMove fuel board aiSymbol = Some (m, board)"
    "find (\<lambda>m. sc m = Max (sc ` set (getAvailableMoves board))) (getAvailableMoves board) = Some m"
    by blast
  have "m \<in> set (getAvailableMoves board)"
    using m(2) by (auto simp: find_Some_iff)
  then show ?thesis using m(1) by blast
qed

lemma minimax_board:
  assumes "wf_board board" "aiSymbol \<noteq> ''''" "playerSymbol \<noteq> ''''"
    and "minimax fuel board depth isMaximizing aiSymbol playerSymbol = Some (score, board')"
  shows "board' = board \<and> (\<exists>v. score = Fin v)"
proof -
  let ?n = "max fuel 10"
  have "minimax ?n board depth isMaximizing aiSymbol playerSymbol = Some (score, board')"
    by (rule minimax_fuel_mono [OF assms(4)]) simp
  moreover have "length (getAvailableMoves board) < ?n"
    using length_moves_le [of board] by simp
  then have "\<exists>v. minimax ?n board depth isMaximizing aiSymbol playerSymbol = Some (Fin v, board)"
    by (rule minimax_total [OF assms(2,3,1)])
  ultimately show ?thesis by auto
qed

lemma getBestMove_loop_board:
  assumes "wf_board board" "aiSymbol \<noteq> ''''" "playerSymbol \<noteq> ''''"
    and "\<And>row col. (row, col) \<in> set moves \<Longrightarrow> cell_at board row col = Some ''''"
  shows "getBestMove_loop fuel moves board aiSymbol playerSymbol bestMove bestScore =
           Some (m, board') \<Longrightarrow> board' = board"
  using assms(4)
proof (induction moves arbitrary: bestMove bestScore)
  case Nil
  then show ?case by simp
next
  case (Cons mv moves)
  obtain row col where mv: "mv = (row, col)" by (cases mv)
  let ?b = "set_cell board row col aiSymbol"
  have e: "cell_at board row col = Some ''''" using Cons.prems(2) mv by simp
  obtain score b1 where call:
    "minimax fuel ?b 0 False aiSymbol playerSymbol = Some (score, b1)"
    using Cons.prems(1) unfolding mv
    by (cases "minimax fuel ?b 0 False aiSymbol playerSymbol") auto
  have b1: "b1 = ?b"
    using minimax_board [OF wf_set_cell [OF assms(1)] assms(2,3) call] by simp
  have rest: "\<And>r c. (r, c) \<in> set moves \<Longrightarrow> cell_at board r c = Some ''''"
    using Cons.prems(2) by simp
  show ?case
  proof (cases "num_gt score bestScore")
    case True
    then have "getBestMove_loop fuel moves board aiSymbol playerSymbol (row, col) score =
        Some (m, board')"
      using Cons.prems(1) unfolding mv by (simp add: call b1 set_cell_undo [OF e])
    then show ?thesis using rest by (rule Cons.IH)
  next
    case False
    then have "getBestMove_loop fuel moves board aiSymbol playerSymbol bestMove bestScore =
        Some (m, board')"
      using Cons.prems(1) unfolding mv by (simp add: call b1 set_cell_undo [OF e])
    then show ?thesis using rest by (rule Cons.IH)
  qed
qed

lemma getBestMove_loop_mono:
  "getBestMove_loop n moves board aiSymbol playerSymbol bestMove bestScore = Some r \<Longrightarrow>
   n \<le> n' \<Longrightarrow>
   getBestMove_loop n' moves board aiSymbol playerSymbol bestMove bestScore = Some r"
proof (induction moves arbitrary: board bestMove bestScore)
  case Nil
  then show ?case by simp
next
  case (Cons mv moves)
  obtain row col where mv: "mv = (row, col)" by (cases mv)
  let ?b = "set_cell board row col aiSymbol"
  obtain score b1 where call:
    "minimax n ?b 0 False aiSymbol playerSymbol = Some (score, b1)"
    using Cons.prems(1) unfolding mv
    by (cases "minimax n ?b 0 False aiSymbol playerSymbol") auto
  have call': "minimax n' ?b 0 False aiSymbol playerSymbol = Some (score, b1)"
    by (rule minimax_fuel_mono [OF call Cons.prems(2)])
  show ?case
  proof (cases "num_gt score bestScore")
    case True
    then have "getBestMove_loop n moves (set_cell b1 row col '''') aiSymbol playerSymbol
        (row, col) score = Some r"
      using Cons.prems(1) unfolding mv by (simp add: call)
    then have "getBestMove_loop n' moves (set_cell b1 row col '''') aiSymbol playerSymbol
        (row, col) score = Some r"
      using Cons.IH Cons.prems(2) by blast
    then show ?thesis unfolding mv using True by (simp add: call')
  next
    case False
    then have "getBestMove_loop n moves (set_cell b1 row col '''') aiSymbol playerSymbol
        bestMove bestScore = Some r"
      using Cons.prems(1) unfolding mv by (simp add: call)
    then have "getBestMove_loop n' moves (set_cell b1 row col '''') aiSymbol playerSymbol
        bestMove bestScore = Some r"
      using Cons.IH Cons.prems(2) by blast
    then show ?thesis unfolding mv using False by (simp add: call')
  qed
qed

lemma getBestMove_mono:
  "getBestMove n board aiSymbol = Some r \<Longrightarrow> n \<le> n' \<Longrightarrow>
   getBestMove n' board aiSymbol = Some r"
  unfolding getBestMove_def by (rule getBestMove_loop_mono)

lemma getBestMove_board:
  assumes "wf_board board" "aiSymbol \<noteq> ''''"
    and "getBestMove fuel board aiSymbol = Some (m, board')"
  shows "board' = board"
proof (rule getBestMove_loop_board [OF assms(1,2) opponent_not_empty])
  show "getBestMove_loop fuel (getAvailableMoves board) board aiSymbol
          (if aiSymbol = ''X'' then ''O'' else ''X'') (- 1, - 1) NegInf = Some (m, board')"
    using assms(3) unfolding getBestMove_def .
  show "cell_at board row col = Some ''''" if "(row, col) \<in> set (getAvailableMoves board)"
    for row col using that by (rule moves_empty_cell)
qed

lemma wf_scenarioC: "wf_board scenarioC"
  by (simp add: scenarioC_def wf_board_def)

lemma array_index_of_int:
  "array_index (Finite (of_int i)) = (if 0 \<le> i \<and> i < 4294967295 then Some (nat i) else None)"
  by (simp add: array_index_def)

lemma aiMove_returns:
  assumes "wf_board (grid s)" "getAvailableMoves (grid s) \<noteq> []"
    and "length (getAvailableMoves (grid s)) \<le> fuel"
  shows "\<exists>s'. aiMove fuel s = Some (Returns s') \<and>
              selectedPlayer s' = selectedPlayer s \<and> gameMode s' = gameMode s \<and>
              gameStarted s' = gameStarted s"
proof -
  let ?a = "if selectedPlayer s = ''X'' then ''O'' else ''X''"
  have a: "?a \<noteq> ''''" by simp
  obtain m where m: "getBestMove fuel (grid s) ?a = Some (m, grid s)"
    "m \<in> set (getAvailableMoves (grid s))"
    using getBestMove_total [OF assms(1) a assms(3)] assms(2) by auto
  obtain row col where rc: "m = (row, col)" by (cases m)
  have "(row, col) \<in> set cells" using m(2) rc moves_in_cells by blast
  then have r: "0 \<le> row" "nat row < 3" "0 \<le> col" "nat col < 3"
    by (simp_all add: in_cells_nat)
  have len: "length (grid s) = 3" using assms(1) by (simp add: wf_board_def)
  have ra: "row_at s (Finite (of_int row)) = Some (nat row)"
    using r len by (simp add: row_at_def array_index_of_int)
  have ci: "array_index (Finite (of_int col)) = Some (nat col)"
    using r by (simp add: array_index_of_int)
  show ?thesis
    by (auto simp: aiMove_def m(1) rc Let_def ra write_cell_def ci)
qed

lemma new_component_simps:
  "grid new_component = emptyBoard" "currentPlayer new_component = ''X''"
  "gameStatus new_component = ''Playing''" "selectedPlayer new_component = ''''"
  "gameMode new_component = ''''" "gameStarted new_component = False"
  "rowProps new_component = []"
  by (simp_all add: new_component_def resetGame_def)

lemma startGame_single_O:
  assumes "wf_board (grid s)" "getAvailableMoves (grid s) \<noteq> []"
    and "length (getAvailableMoves (grid s)) \<le> fuel"
    and "selectedPlayer s = ''O''" "gameMode s = ''single''"
  shows "\<exists>s'. startGame fuel s = Some (Returns s') \<and> grid s' = emptyBoard \<and>
              currentPlayer s' = ''O''"
proof -
  let ?s1 = "s\<lparr>gameStarted := True, currentPlayer := ''X''\<rparr>"
  have "\<exists>s'. aiMove fuel ?s1 = Some (Returns s') \<and>
              selectedPlayer s' = selectedPlayer ?s1 \<and> gameMode s' = gameMode ?s1 \<and>
              gameStarted s' = gameStarted ?s1"
    by (rule aiMove_returns) (use assms in simp_all)
  then obtain s2 where s2: "aiMove fuel ?s1 = Some (Returns s2)" "selectedPlayer s2 = ''O''"
    using assms(4) by auto
  show ?thesis
    using assms(4,5) s2 by (simp add: startGame_def Let_def resetGame_def)
qed

lemma checkWin_hasLine: "checkWin board \<longleftrightarrow> hasLine ''O'' board \<or> hasLine ''X'' board"
  unfolding checkWin_def hasLine_def list_ex_iff by blast

lemma combinations_in_cells:
  "list_all (\<lambda>combination. list_all (\<lambda>m. m \<in> set cells) combination) winningCombinations"
  by (simp add: winningCombinations_def cells_def)

lemma combination_cells:
  "combination \<in> set winningCombinations \<Longrightarrow> set combination \<subseteq> set cells"
  using combinations_in_cells unfolding list_all_iff by blast

lemma hasLine_before:
  assumes "wf_board board" "(row, col) \<in> set cells" "other \<noteq> symbol"
    and "hasLine other (set_cell board row col symbol)"
  shows "hasLine other board"
proof -
  obtain combination where c: "combination \<in> set winningCombinations"
    and l: "\<forall>(r, c) \<in> set combination.
              cell_at (set_cell board row col symbol) r c = Some other"
    using assms(4) unfolding hasLine_def list_ex_iff list_all_iff by blast
  have "cell_at board r c = Some other" if rc: "(r, c) \<in> set combination" for r c
  proof -
    have m: "(r, c) \<in> set cells" using combination_cells [OF c] rc by blast
    have "cell_at (set_cell board row col symbol) r c = Some other" using l rc by blast
    then show ?thesis
      using assms(3) by (simp add: cell_at_set_cell [OF assms(1,2) m] split: if_splits)
  qed
  then show ?thesis
    unfolding hasLine_def list_ex_iff list_all_iff using c by blast
qed

lemma checkWin_after_move:
  assumes "wf_board board" "\<not> checkWin board" "(row, col) \<in> set (getAvailableMoves board)"
    and "symbol = ''X'' \<or> symbol = ''O''"
  shows "checkWin (set_cell board row col symbol) \<longleftrightarrow>
         hasLine symbol (set_cell board row col symbol)"
proof -
  have c: "(row, col) \<in> set cells" using assms(3) by (rule moves_in_cells)
  have no: "\<not> hasLine ''O'' board" "\<not> hasLine ''X'' board"
    using assms(2) by (simp_all add: checkWin_hasLine)
  show ?thesis
  proof (cases "symbol = ''X''")
    case True
    have "\<not> hasLine ''O'' (set_cell board row col symbol)"
      using hasLine_before [OF assms(1) c, of "''O''" symbol] no(1) True by auto
    then show ?thesis using True by (simp add: checkWin_hasLine)
  next
    case False
    then have s: "symbol = ''O''" using assms(4) by simp
    have "\<not> hasLine ''X'' (set_cell board row col symbol)"
      using hasLine_before [OF assms(1) c, of "''X''" symbol] no(2) s by auto
    then show ?thesis using s by (simp add: checkWin_hasLine)
  qed
qed

section \<open>Bounds on scores\<close>

lemma in_bound_Fin: "in_bound ge k (Fin v) \<longleftrightarrow> (if ge then k \<le> v else v \<le> k)"
  by (auto simp: in_bound_def)

lemma in_bound_init:
  "isMaximizing \<noteq> ge \<Longrightarrow> in_bound ge k (if isMaximizing then NegInf else PosInf)"
  by (auto simp: in_bound_def)

lemma in_bound_best_step_all:
  "isMaximizing \<noteq> ge \<Longrightarrow>
   in_bound ge k (best_step isMaximizing x acc) \<longleftrightarrow> in_bound ge k x \<and> in_bound ge k acc"
  by (cases x; cases acc) (auto simp: in_bound_def best_step_def num_max_def num_min_def)

lemma in_bound_best_step_ex:
  "isMaximizing = ge \<Longrightarrow>
   in_bound ge k (best_step isMaximizing x acc) \<longleftrightarrow> in_bound ge k x \<or> in_bound ge k acc"
  by (cases x; cases acc) (auto simp: in_bound_def best_step_def num_max_def num_min_def)

lemma in_bound_foldl_all:
  assumes "isMaximizing \<noteq> ge"
  shows "in_bound ge k (foldl (\<lambda>best m. best_step isMaximizing (val m) best) acc moves) \<longleftrightarrow>
         in_bound ge k acc \<and> (\<forall>m\<in>set moves. in_bound ge k (val m))"
  by (induction moves arbitrary: acc) (auto simp: in_bound_best_step_all [OF assms])

lemma in_bound_foldl_ex:
  assumes "isMaximizing = ge"
  shows "in_bound ge k (foldl (\<lambda>best m. best_step isMaximizing (val m) best) acc moves) \<longleftrightarrow>
         in_bound ge k acc \<or> (\<exists>m\<in>set moves. in_bound ge k (val m))"
  by (induction moves arbitrary: acc) (auto simp: in_bound_best_step_ex [OF assms])

lemma score_bound_loop_iff:
  "score_bound_loop fuel ge k moves board depth isMaximizing aiSymbol playerSymbol \<longleftrightarrow>
     (if isMaximizing \<noteq> ge then
        \<forall>m\<in>set moves. score_bound fuel ge k
           (set_cell board (fst m) (snd m) (if isMaximizing then aiSymbol else playerSymbol))
           (depth + 1) (\<not> isMaximizing) aiSymbol playerSymbol
      else
        \<exists>m\<in>set moves. score_bound fuel ge k
           (set_cell board (fst m) (snd m) (if isMaximizing then aiSymbol else playerSymbol))
           (depth + 1) (\<not> isMaximizing) aiSymbol playerSymbol)"
proof (induction moves)
  case Nil
  then show ?case by simp
next
  case (Cons m moves)
  obtain row col where m: "m = (row, col)" by (cases m)
  show ?case unfolding m using Cons.IH by (cases "isMaximizing \<noteq> ge") auto
qed

lemma score_bound_sound:
  assumes sym: "aiSymbol \<noteq> ''''" "playerSymbol \<noteq> ''''"
  shows "wf_board board \<Longrightarrow> length (getAvailableMoves board) < fuel \<Longrightarrow>
         score_bound fuel ge k board depth isMaximizing aiSymbol playerSymbol \<Longrightarrow>
         \<exists>v. minimax fuel board depth isMaximizing aiSymbol playerSymbol = Some (Fin v, board) \<and>
             (if ge then k \<le> v else v \<le> k)"
proof (induction fuel arbitrary: board depth isMaximizing)
  case 0
  then show ?case by simp
next
  case (Suc fuel)
  show ?case
  proof (cases "checkWin board \<or> isDraw board")
    case True
    then show ?thesis using Suc.prems(3) by (auto simp: in_bound_Fin split: if_splits)
  next
    case False
    let ?s = "if isMaximizing then aiSymbol else playerSymbol"
    let ?moves = "getAvailableMoves board"
    let ?child = "\<lambda>m. set_cell board (fst m) (snd m) ?s"
    have s: "?s \<noteq> ''''" using sym by simp
    have ne: "?moves \<noteq> []"
      using False isDraw_iff_no_moves [OF Suc.prems(1)] by simp
    have wfc: "wf_board (?child m)" for m by (rule wf_set_cell [OF Suc.prems(1)])
    have lenc: "length (getAvailableMoves (?child m)) < fuel" if "m \<in> set ?moves" for m
    proof -
      have "(fst m, snd m) \<in> set ?moves" using that by simp
      from moves_decrease [OF Suc.prems(1) this s] Suc.prems(2) show ?thesis by linarith
    qed
    have "\<forall>m\<in>set ?moves. \<exists>v. minimax fuel (?child m) (depth + 1) (\<not> isMaximizing)
              aiSymbol playerSymbol = Some (Fin v, ?child m)"
      using minimax_total [OF sym wfc lenc] by blast
    then obtain val where val: "\<forall>m\<in>set ?moves.
        minimax fuel (?child m) (depth + 1) (\<not> isMaximizing) aiSymbol playerSymbol =
          Some (Fin (val m), ?child m)"
      by (rule bchoice [THEN exE])
    have loop: "minimax_loop fuel ?moves board depth isMaximizing aiSymbol playerSymbol best =
         Some (foldl (\<lambda>best m. best_step isMaximizing (Fin (val m)) best) best ?moves, board)"
      for best
    proof (rule minimax_loop_fold [where val = "\<lambda>m. Fin (val m)"])
      show "cell_at board row col = Some ''''" if "(row, col) \<in> set ?moves" for row col
        using that by (rule moves_empty_cell)
      show "minimax fuel (set_cell board row col ?s) (depth + 1) (\<not> isMaximizing)
              aiSymbol playerSymbol = Some (Fin (val (row, col)), set_cell board row col ?s)"
        if "(row, col) \<in> set ?moves" for row col
        using val that by force
    qed
    let ?init = "if isMaximizing then NegInf else PosInf"
    let ?r = "foldl (\<lambda>best m. best_step isMaximizing (Fin (val m)) best) ?init ?moves"
    obtain w where w: "?r = Fin w"
      using foldl_best_step_init [OF ne] by blast
    have checked: "score_bound_loop fuel ge k ?moves board depth isMaximizing aiSymbol playerSymbol"
      using Suc.prems(3) False by simp
    have child_ok: "in_bound ge k (Fin (val m))"
      if m: "m \<in> set ?moves"
        and c: "score_bound fuel ge k (?child m) (depth + 1) (\<not> isMaximizing)
                  aiSymbol playerSymbol" for m
    proof -
      obtain v where "minimax fuel (?child m) (depth + 1) (\<not> isMaximizing)
          aiSymbol playerSymbol = Some (Fin v, ?child m)" "if ge then k \<le> v else v \<le> k"
        using Suc.IH [OF wfc lenc [OF m] c] by blast
      then show ?thesis using val m by (simp add: in_bound_Fin)
    qed
    have "in_bound ge k ?r"
    proof (cases "isMaximizing \<noteq> ge")
      case True
      have "\<forall>m\<in>set ?moves. in_bound ge k (Fin (val m))"
        using checked child_ok True unfolding score_bound_loop_iff by auto
      then show ?thesis
        using in_bound_foldl_all [OF True, of k "\<lambda>m. Fin (val m)" ?init ?moves]
          in_bound_init [OF True, of k] by blast
    next
      case F: False
      then have eq: "isMaximizing = ge" by simp
      have "\<exists>m\<in>set ?moves. in_bound ge k (Fin (val m))"
        using checked child_ok F unfolding score_bound_loop_iff by auto
      then show ?thesis
        using in_bound_foldl_ex [OF eq, of k "\<lambda>m. Fin (val m)" ?init ?moves] by blast
    qed
    then have "if ge then k \<le> w else w \<le> k" unfolding w by (simp add: in_bound_Fin)
    moreover have "minimax (Suc fuel) board depth isMaximizing aiSymbol playerSymbol =
        Some (Fin w, board)"
      using False w by (simp add: loop)
    ultimately show ?thesis by blast
  qed
qed

subsection \<open>The functions of the search on a board written out\<close>

lemma cell_eqs:
  "(Some ''X'' = Some ''O'') = False" "(Some ''O'' = Some ''X'') = False"
  "(Some ''X'' = Some '''') = False" "(Some '''' = Some ''X'') = False"
  "(Some ''O'' = Some '''') = False" "(Some '''' = Some ''O'') = False"
  by simp_all

lemma checkWin_explicit:
  "checkWin [[a, b, c], [d, e, f], [g, h, i]] =
     (if a = Some ''O'' \<and> b = Some ''O'' \<and> c = Some ''O'' then True
      else if a = Some ''X'' \<and> b = Some ''X'' \<and> c = Some ''X'' then True
      else if d = Some ''O'' \<and> e = Some ''O'' \<and> f = Some ''O'' then True
      else if d = Some ''X'' \<and> e = Some ''X'' \<and> f = Some ''X'' then True
      else if g = Some ''O'' \<and> h = Some ''O'' \<and> i = Some ''O'' then True
      else if g = Some ''X'' \<and> h = Some ''X'' \<and> i = Some ''X'' then True
      else if a = Some ''O'' \<and> d = Some ''O'' \<and> g = Some ''O'' then True
      else if a = Some ''X'' \<and> d = Some ''X'' \<and> g = Some ''X'' then True
      else if b = Some ''O'' \<and> e = Some ''O'' \<and> h = Some ''O'' then True
      else if b = Some ''X'' \<and> e = Some ''X'' \<and> h = Some ''X'' then True
      else if c = Some ''O'' \<and> f = Some ''O'' \<and> i = Some ''O'' then True
      else if c = Some ''X'' \<and> f = Some ''X'' \<and> i = Some ''X'' then True
      else if a = Some ''O'' \<and> e = Some ''O'' \<and> i = Some ''O'' then True
      else if a = Some ''X'' \<and> e = Some ''X'' \<and> i = Some ''X'' then True
      else if c = Some ''O'' \<and> e = Some ''O'' \<and> g = Some ''O'' then True
      else if c = Some ''X'' \<and> e = Some ''X'' \<and> g = Some ''X'' then True
      else False)"
  by (simp add: checkWin_def winningCombinations_def cell_at_def)

lemma isDraw_explicit:
  "isDraw [[a, b, c], [d, e, f], [g, h, i]] =
     (a \<noteq> Some '''' \<and> b \<noteq> Some '''' \<and> c \<noteq> Some '''' \<and>
      d \<noteq> Some '''' \<and> e \<noteq> Some '''' \<and> f \<noteq> Some '''' \<and>
      g \<noteq> Some '''' \<and> h \<noteq> Some '''' \<and> i \<noteq> Some '''')"
  by (simp add: isDraw_def)

lemma getAvailableMoves_explicit:
  "getAvailableMoves [[a, b, c], [d, e, f], [g, h, i]] =
     (if a = Some '''' then [(0, 0)] else []) @ (if b = Some '''' then [(0, 1)] else []) @
     (if c = Some '''' then [(0, 2)] else []) @ (if d = Some '''' then [(1, 0)] else []) @
     (if e = Some '''' then [(1, 1)] else []) @ (if f = Some '''' then [(1, 2)] else []) @
     (if g = Some '''' then [(2, 0)] else []) @ (if h = Some '''' then [(2, 1)] else []) @
     (if i = Some '''' then [(2, 2)] else [])"
  by (simp add: getAvailableMoves_def cell_at_def)

lemma set_cell_explicit:
  "set_cell [[a, b, c], [d, e, f], [g, h, i]] 0 0 v = [[Some v, b, c], [d, e, f], [g, h, i]]"
  "set_cell [[a, b, c], [d, e, f], [g, h, i]] 0 1 v = [[a, Some v, c], [d, e, f], [g, h, i]]"
  "set_cell [[a, b, c], [d, e, f], [g, h, i]] 0 2 v = [[a, b, Some v], [d, e, f], [g, h, i]]"
  "set_cell [[a, b, c], [d, e, f], [g, h, i]] 1 0 v = [[a, b, c], [Some v, e, f], [g, h, i]]"
  "set_cell [[a, b, c], [d, e, f], [g, h, i]] 1 1 v = [[a, b, c], [d, Some v, f], [g, h, i]]"
  "set_cell [[a, b, c], [d, e, f], [g, h, i]] 1 2 v = [[a, b, c], [d, e, Some v], [g, h, i]]"
  "set_cell [[a, b, c], [d, e, f], [g, h, i]] 2 0 v = [[a, b, c], [d, e, f], [Some v, h, i]]"
  "set_cell [[a, b, c], [d, e, f], [g, h, i]] 2 1 v = [[a, b, c], [d, e, f], [g, Some v, i]]"
  "set_cell [[a, b, c], [d, e, f], [g, h, i]] 2 2 v = [[a, b, c], [d, e, f], [g, h, Some v]]"
  by (simp_all add: set_cell_def)

lemma emptyBoard_explicit:
  "emptyBoard = [[Some '''', Some '''', Some ''''], [Some '''', Some '''', Some ''''],
                 [Some '''', Some '''', Some '''']]"
  by (simp add: emptyBoard_def numeral_3_eq_3)

lemma depth_succ:
  "(0::int) + 1 = 1" "(1::int) + 1 = 2" "(2::int) + 1 = 3" "(3::int) + 1 = 4" "(4::int) + 1 = 5" "(5::int) + 1 = 6" "(6::int) + 1 = 7" "(7::int) + 1 = 8" "(8::int) + 1 = 9"
  by simp_all

lemma depth_cmp:
  "((0::int) \<le> 10 - 0) = True"
  "((0::int) \<le> - 10 + 0) = False"
  "((10::int) - 0 \<le> 0) = False"
  "((- 10::int) + 0 \<le> 0) = True"
  "((0::int) \<le> 10 - 1) = True"
  "((0::int) \<le> - 10 + 1) = False"
  "((10::int) - 1 \<le> 0) = False"
  "((- 10::int) + 1 \<le> 0) = True"
  "((0::int) \<le> 10 - 2) = True"
  "((0::int) \<le> - 10 + 2) = False"
  "((10::int) - 2 \<le> 0) = False"
  "((- 10::int) + 2 \<le> 0) = True"
  "((0::int) \<le> 10 - 3) = True"
  "((0::int) \<le> - 10 + 3) = False"
  "((10::int) - 3 \<le> 0) = False"
  "((- 10::int) + 3 \<le> 0) = True"
  "((0::int) \<le> 10 - 4) = True"
  "((0::int) \<le> - 10 + 4) = False"
  "((10::int) - 4 \<le> 0) = False"
  "((- 10::int) + 4 \<le> 0) = True"
  "((0::int) \<le> 10 - 5) = True"
  "((0::int) \<le> - 10 + 5) = False"
  "((10::int) - 5 \<le> 0) = False"
  "((- 10::int) + 5 \<le> 0) = True"
  "((0::int) \<le> 10 - 6) = True"
  "((0::int) \<le> - 10 + 6) = False"
  "((10::int) - 6 \<le> 0) = False"
  "((- 10::int) + 6 \<le> 0) = True"
  "((0::int) \<le> 10 - 7) = True"
  "((0::int) \<le> - 10 + 7) = False"
  "((10::int) - 7 \<le> 0) = False"
  "((- 10::int) + 7 \<le> 0) = True"
  "((0::int) \<le> 10 - 8) = True"
  "((0::int) \<le> - 10 + 8) = False"
  "((10::int) - 8 \<le> 0) = False"
  "((- 10::int) + 8 \<le> 0) = True"
  "((0::int) \<le> 10 - 9) = True"
  "((0::int) \<le> - 10 + 9) = False"
  "((10::int) - 9 \<le> 0) = False"
  "((- 10::int) + 9 \<le> 0) = True"
  by simp_all

lemma zero_cmp: "((0::int) \<le> 0) = True"
  by simp

lemma nine: "9 = Suc (Suc (Suc (Suc (Suc (Suc (Suc (Suc (Suc 0))))))))"
  by simp

lemmas bound_rules = cell_eqs checkWin_explicit isDraw_explicit getAvailableMoves_explicit
  set_cell_explicit in_bound_Fin score_bound.simps score_bound_loop.simps
  simp_thms if_True if_False append.simps depth_succ depth_cmp zero_cmp emptyBoard_explicit nine

lemma bound_00: "score_bound 9 True 0 (set_cell emptyBoard 0 0 ''X'') 0 False ''X'' ''O''"
  by (simp only: bound_rules cong: if_weak_cong)

lemma bound_01: "score_bound 9 False 0 (set_cell emptyBoard 0 1 ''X'') 0 False ''X'' ''O''"
  by (simp only: bound_rules cong: if_weak_cong)

lemma bound_02: "score_bound 9 False 0 (set_cell emptyBoard 0 2 ''X'') 0 False ''X'' ''O''"
  by (simp only: bound_rules cong: if_weak_cong)

lemma bound_10: "score_bound 9 False 0 (set_cell emptyBoard 1 0 ''X'') 0 False ''X'' ''O''"
  by (simp only: bound_rules cong: if_weak_cong)

lemma bound_11: "score_bound 9 False 0 (set_cell emptyBoard 1 1 ''X'') 0 False ''X'' ''O''"
  by (simp only: bound_rules cong: if_weak_cong)

lemma bound_12: "score_bound 9 False 0 (set_cell emptyBoard 1 2 ''X'') 0 False ''X'' ''O''"
  by (simp only: bound_rules cong: if_weak_cong)

lemma bound_20: "score_bound 9 False 0 (set_cell emptyBoard 2 0 ''X'') 0 False ''X'' ''O''"
  by (simp only: bound_rules cong: if_weak_cong)

lemma bound_21: "score_bound 9 False 0 (set_cell emptyBoard 2 1 ''X'') 0 False ''X'' ''O''"
  by (simp only: bound_rules cong: if_weak_cong)

lemma bound_22: "score_bound 9 False 0 (set_cell emptyBoard 2 2 ''X'') 0 False ''X'' ''O''"
  by (simp only: bound_rules cong: if_weak_cong)

subsection \<open>The empty board\<close>

lemma emptyBoard_moves: "getAvailableMoves emptyBoard = cells"
  by (simp add: emptyBoard_explicit getAvailableMoves_explicit cells_def)

lemma emptyBoard_child_moves:
  assumes "m \<in> set cells"
  shows "length (getAvailableMoves (set_cell emptyBoard (fst m) (snd m) ''X'')) < 9"
proof -
  have "(fst m, snd m) \<in> set (getAvailableMoves emptyBoard)"
    using assms by (simp add: emptyBoard_moves)
  from moves_decrease [OF wf_emptyBoard this, of "''X''"]
  have "Suc (length (getAvailableMoves (set_cell emptyBoard (fst m) (snd m) ''X''))) = 9"
    by (simp add: emptyBoard_moves cells_def)
  then show ?thesis by simp
qed

lemma emptyBoard_scores:
  assumes sc: "\<And>row col. (row, col) \<in> set cells \<Longrightarrow>
      minimax 9 (set_cell emptyBoard row col ''X'') 0 False ''X'' ''O'' =
        Some (Fin (sc (row, col)), set_cell emptyBoard row col ''X'')"
  shows "0 \<le> sc (0, 0)" and "\<forall>m\<in>set cells. m \<noteq> (0, 0) \<longrightarrow> sc m \<le> 0"
proof -
  have x: "''X'' \<noteq> ''''" and o: "''O'' \<noteq> ''''" by simp_all
  have use: "if ge then 0 \<le> sc (row, col) else sc (row, col) \<le> 0"
    if m: "(row, col) \<in> set cells"
      and b: "score_bound 9 ge 0 (set_cell emptyBoard row col ''X'') 0 False ''X'' ''O''"
    for row col ge
  proof -
    have "length (getAvailableMoves (set_cell emptyBoard row col ''X'')) < 9"
      using emptyBoard_child_moves [OF m] by simp
    from score_bound_sound [OF x o wf_set_cell [OF wf_emptyBoard] this b]
    show ?thesis using sc [OF m] by auto
  qed
  show "0 \<le> sc (0, 0)"
    using use [of 0 0 True] bound_00 by (simp add: cells_def)
  have "sc (0, 1) \<le> 0" using use [of 0 1 False] bound_01 by (simp add: cells_def)
  moreover have "sc (0, 2) \<le> 0" using use [of 0 2 False] bound_02 by (simp add: cells_def)
  moreover have "sc (1, 0) \<le> 0" using use [of 1 0 False] bound_10 by (simp add: cells_def)
  moreover have "sc (1, 1) \<le> 0" using use [of 1 1 False] bound_11 by (simp add: cells_def)
  moreover have "sc (1, 2) \<le> 0" using use [of 1 2 False] bound_12 by (simp add: cells_def)
  moreover have "sc (2, 0) \<le> 0" using use [of 2 0 False] bound_20 by (simp add: cells_def)
  moreover have "sc (2, 1) \<le> 0" using use [of 2 1 False] bound_21 by (simp add: cells_def)
  moreover have "sc (2, 2) \<le> 0" using use [of 2 2 False] bound_22 by (simp add: cells_def)
  ultimately show "\<forall>m\<in>set cells. m \<noteq> (0, 0) \<longrightarrow> sc m \<le> 0"
    by (simp add: cells_def)
qed

lemma getBestMove_general:
  assumes "wf_board board" "aiSymbol \<noteq> ''''" "getAvailableMoves board \<noteq> []"
    and "length (getAvailableMoves board) \<le> fuel"
  shows "\<exists>sc m.
      (\<forall>(row, col) \<in> set (getAvailableMoves board).
          minimax fuel (set_cell board row col aiSymbol) 0 False aiSymbol
            (if aiSymbol = ''X'' then ''O'' else ''X'') =
          Some (Fin (sc (row, col)), set_cell board row col aiSymbol)) \<and>
      getBestMove fuel board aiSymbol = Some (m, board) \<and>
      find (\<lambda>m. sc m = Max (sc ` set (getAvailableMoves board))) (getAvailableMoves board) =
        Some m"
proof -
  let ?pl = "if aiSymbol = ''X'' then ''O'' else ''X''"
  obtain sc where sc: "\<forall>m\<in>set (getAvailableMoves board).
           minimax fuel (set_cell board (fst m) (snd m) aiSymbol) 0 False aiSymbol ?pl =
           Some (Fin (sc m), set_cell board (fst m) (snd m) aiSymbol)"
    using top_scores [OF assms(1,2) opponent_not_empty assms(4)] by blast
  have sc': "minimax fuel (set_cell board row col aiSymbol) 0 False aiSymbol ?pl =
           Some (Fin (sc (row, col)), set_cell board row col aiSymbol)"
    if "(row, col) \<in> set (getAvailableMoves board)" for row col
    using sc that by force
  obtain m where "getBestMove fuel board aiSymbol = Some (m, board)"
    "find (\<lambda>m. sc m = Max (sc ` set (getAvailableMoves board))) (getAvailableMoves board) = Some m"
    using getBestMove_first_max [OF assms(1,2,3,4) sc'] by blast
  then show ?thesis using sc' by blast
qed

lemma getBestMove_emptyBoard: "getBestMove 9 emptyBoard ''X'' = Some ((0, 0), emptyBoard)"
proof -
  have x: "''X'' \<noteq> ''''" by simp
  have ne: "getAvailableMoves emptyBoard \<noteq> []" by (simp add: emptyBoard_moves cells_def)
  have le: "length (getAvailableMoves emptyBoard) \<le> 9" by (rule length_moves_le)
  obtain sc m where
    sc: "\<forall>(row, col) \<in> set (getAvailableMoves emptyBoard).
          minimax 9 (set_cell emptyBoard row col ''X'') 0 False ''X''
            (if ''X'' = ''X'' then ''O'' else ''X'') =
          Some (Fin (sc (row, col)), set_cell emptyBoard row col ''X'')"
    and g: "getBestMove 9 emptyBoard ''X'' = Some (m, emptyBoard)"
    and f: "find (\<lambda>m. sc m = Max (sc ` set (getAvailableMoves emptyBoard)))
              (getAvailableMoves emptyBoard) = Some m"
    using getBestMove_general [OF wf_emptyBoard x ne le] by blast
  have sc': "minimax 9 (set_cell emptyBoard row col ''X'') 0 False ''X'' ''O'' =
        Some (Fin (sc (row, col)), set_cell emptyBoard row col ''X'')"
    if "(row, col) \<in> set cells" for row col
    using sc that unfolding emptyBoard_moves by auto
  note b = emptyBoard_scores [of sc, OF sc']
  have mx: "Max (sc ` set cells) = sc (0, 0)"
  proof (rule Max_eqI)
    show "finite (sc ` set cells)" by simp
    show "sc (0, 0) \<in> sc ` set cells" by (simp add: cells_def)
    show "y \<le> sc (0, 0)" if y: "y \<in> sc ` set cells" for y
    proof -
      obtain m where m: "m \<in> set cells" "y = sc m" using y by blast
      show ?thesis using b m by (cases "m = (0, 0)") auto
    qed
  qed
  have "find (\<lambda>m. sc m = Max (sc ` set cells)) cells = Some (0, 0)"
    unfolding mx by (simp add: cells_def)
  then have "m = (0, 0)" using f unfolding emptyBoard_moves by simp
  then show ?thesis using g by simp
qed

subsection \<open>Coordinates, rows and cells of the component\<close>

lemma array_index_small:
  "array_index (Finite 0) = Some 0" "array_index (Finite 1) = Some 1"
  "array_index (Finite 2) = Some 2" "array_index (Finite 3) = Some 3"
  "array_index (Finite (- 1)) = None" "array_index (Finite 4294967295) = None"
  by (simp_all add: array_index_def)







subsection \<open>The opening move\<close>

lemma opening_move:
  "\<exists>s'. aiMove 9 ((selectPlayer (setGameMode new_component ''single'') ''O'')
                     \<lparr>gameStarted := True, currentPlayer := ''X''\<rparr>) = Some (Returns s') \<and>
        grid s' = set_cell emptyBoard 0 0 ''X''"
proof -
  have len: "length emptyBoard = 3" and ne: "emptyBoard \<noteq> []"
    by (simp_all add: emptyBoard_explicit)
  have w: "emptyBoard[0 := js_set (emptyBoard ! 0) 0 ''X''] = set_cell emptyBoard 0 0 ''X''"
    by (simp add: emptyBoard_explicit set_cell_explicit js_set_def)
  have nw: "\<not> checkWin (set_cell emptyBoard 0 0 ''X'')"
    and nd: "\<not> isDraw (set_cell emptyBoard 0 0 ''X'')"
    by (simp_all add: emptyBoard_explicit set_cell_explicit checkWin_explicit isDraw_explicit)
  show ?thesis
    by (simp add: aiMove_def selectPlayer_def setGameMode_def new_component_simps
          getBestMove_emptyBoard Let_def row_at_def array_index_small write_cell_def len ne w nw nd)
qed

section \<open>Scores and plies\<close>

lemma in_bound_init_ex:
  "isMaximizing = ge \<Longrightarrow> \<not> in_bound ge k (if isMaximizing then NegInf else PosInf)"
  by (auto simp: in_bound_def)

lemma node_value:
  assumes "wf_board board" and sym: "aiSymbol \<noteq> ''''" "playerSymbol \<noteq> ''''"
    and nt: "\<not> checkWin board" "\<not> isDraw board"
    and len: "length (getAvailableMoves board) \<le> fuel"
  shows "\<exists>val w.
      (\<forall>m\<in>set (getAvailableMoves board).
          minimax fuel
            (set_cell board (fst m) (snd m) (if isMaximizing then aiSymbol else playerSymbol))
            (depth + 1) (\<not> isMaximizing) aiSymbol playerSymbol =
          Some (Fin (val m),
            set_cell board (fst m) (snd m) (if isMaximizing then aiSymbol else playerSymbol))) \<and>
      minimax (Suc fuel) board depth isMaximizing aiSymbol playerSymbol = Some (Fin w, board) \<and>
      (\<forall>k. (k \<le> w) = (if isMaximizing then \<exists>m\<in>set (getAvailableMoves board). k \<le> val m
                                         else \<forall>m\<in>set (getAvailableMoves board). k \<le> val m)) \<and>
      (\<forall>k. (w \<le> k) = (if isMaximizing then \<forall>m\<in>set (getAvailableMoves board). val m \<le> k
                                         else \<exists>m\<in>set (getAvailableMoves board). val m \<le> k))"
proof -
  let ?s = "if isMaximizing then aiSymbol else playerSymbol"
  let ?moves = "getAvailableMoves board"
  let ?child = "\<lambda>m. set_cell board (fst m) (snd m) ?s"
  have s: "?s \<noteq> ''''" using sym by simp
  have wfc: "wf_board (?child m)" for m by (rule wf_set_cell [OF assms(1)])
  have lenc: "length (getAvailableMoves (?child m)) < fuel" if "m \<in> set ?moves" for m
  proof -
    have "(fst m, snd m) \<in> set ?moves" using that by simp
    from moves_decrease [OF assms(1) this s] len show ?thesis by linarith
  qed
  have "\<forall>m\<in>set ?moves. \<exists>v. minimax fuel (?child m) (depth + 1) (\<not> isMaximizing)
            aiSymbol playerSymbol = Some (Fin v, ?child m)"
    using minimax_total [OF sym wfc lenc] by blast
  then obtain val where val: "\<forall>m\<in>set ?moves.
      minimax fuel (?child m) (depth + 1) (\<not> isMaximizing) aiSymbol playerSymbol =
        Some (Fin (val m), ?child m)"
    by (rule bchoice [THEN exE])
  have loop: "minimax_loop fuel ?moves board depth isMaximizing aiSymbol playerSymbol best =
       Some (foldl (\<lambda>best m. best_step isMaximizing (Fin (val m)) best) best ?moves, board)"
    for best
  proof (rule minimax_loop_fold [where val = "\<lambda>m. Fin (val m)"])
    show "cell_at board row col = Some ''''" if "(row, col) \<in> set ?moves" for row col
      using that by (rule moves_empty_cell)
    show "minimax fuel (set_cell board row col ?s) (depth + 1) (\<not> isMaximizing)
            aiSymbol playerSymbol = Some (Fin (val (row, col)), set_cell board row col ?s)"
      if "(row, col) \<in> set ?moves" for row col
      using val that by force
  qed
  have ne: "?moves \<noteq> []" using nt(2) isDraw_iff_no_moves [OF assms(1)] by simp
  let ?init = "if isMaximizing then NegInf else PosInf"
  let ?r = "foldl (\<lambda>best m. best_step isMaximizing (Fin (val m)) best) ?init ?moves"
  obtain w where w: "?r = Fin w" using foldl_best_step_init [OF ne] by blast
  have mm: "minimax (Suc fuel) board depth isMaximizing aiSymbol playerSymbol = Some (Fin w, board)"
    using nt w by (simp add: loop)
  have all: "in_bound ge k (Fin w) = (\<forall>m\<in>set ?moves. in_bound ge k (Fin (val m)))"
    if "isMaximizing \<noteq> ge" for ge k
    using in_bound_foldl_all [OF that, of k "\<lambda>m. Fin (val m)" ?init ?moves]
      in_bound_init [OF that, of k] unfolding w by simp
  have ex: "in_bound ge k (Fin w) = (\<exists>m\<in>set ?moves. in_bound ge k (Fin (val m)))"
    if "isMaximizing = ge" for ge k
    using in_bound_foldl_ex [OF that, of k "\<lambda>m. Fin (val m)" ?init ?moves]
      in_bound_init_ex [OF that, of k] unfolding w by simp
  have ge: "(k \<le> w) = (if isMaximizing then \<exists>m\<in>set ?moves. k \<le> val m
                          else \<forall>m\<in>set ?moves. k \<le> val m)" for k
  proof (cases isMaximizing)
    case True
    then show ?thesis using ex [of True k] by (simp add: in_bound_Fin)
  next
    case False
    then show ?thesis using all [of True k] by (simp add: in_bound_Fin)
  qed
  have le: "(w \<le> k) = (if isMaximizing then \<forall>m\<in>set ?moves. val m \<le> k
                          else \<exists>m\<in>set ?moves. val m \<le> k)" for k
  proof (cases isMaximizing)
    case True
    then show ?thesis using all [of False k] by (simp add: in_bound_Fin)
  next
    case False
    then show ?thesis using ex [of False k] by (simp add: in_bound_Fin)
  qed
  show ?thesis using val mm ge le by blast
qed

lemma checkWin_symbols:
  assumes "aiSymbol = ''X'' \<and> playerSymbol = ''O'' \<or> aiSymbol = ''O'' \<and> playerSymbol = ''X''"
  shows "checkWin board \<longleftrightarrow> hasLine aiSymbol board \<or> hasLine playerSymbol board"
  using assms by (auto simp: checkWin_hasLine)

lemma forced_win_no_line:
  assumes "\<not> hasLine me board" "\<not> hasLine other board"
  shows "forced_win n board myTurn me other \<longleftrightarrow>
     (\<exists>k. n = Suc k \<and>
        (if myTurn then
           \<exists>m\<in>set (getAvailableMoves board).
              forced_win k (set_cell board (fst m) (snd m) me) False me other
         else
           getAvailableMoves board \<noteq> [] \<and>
           (\<forall>m\<in>set (getAvailableMoves board).
              forced_win k (set_cell board (fst m) (snd m) other) True me other)))"
  using assms by (cases n) (simp_all add: list_ex_iff list_all_iff)

lemma forced_win_line: "hasLine me board \<Longrightarrow> forced_win n board myTurn me other"
  by (cases n) simp_all

lemma forced_win_lost:
  "\<not> hasLine me board \<Longrightarrow> hasLine other board \<Longrightarrow> \<not> forced_win n board myTurn me other"
  by (cases n) simp_all

lemma value_bounds:
  assumes xo: "aiSymbol = ''X'' \<and> playerSymbol = ''O'' \<or> aiSymbol = ''O'' \<and> playerSymbol = ''X''"
  shows "wf_board board \<Longrightarrow>
     \<not> hasLine (if isMaximizing then aiSymbol else playerSymbol) board \<Longrightarrow>
     length (getAvailableMoves board) < fuel \<Longrightarrow> 0 \<le> depth \<Longrightarrow>
     depth + int (length (getAvailableMoves board)) \<le> 9 \<Longrightarrow>
     minimax fuel board depth isMaximizing aiSymbol playerSymbol = Some (Fin v, board) \<Longrightarrow>
     (forced_win n board isMaximizing aiSymbol playerSymbol \<longrightarrow> 10 - (depth + int n) \<le> v) \<and>
     (depth + int n \<le> 10 \<and>
      (n = 0 \<or> \<not> forced_win (n - 1) board isMaximizing aiSymbol playerSymbol) \<longrightarrow>
        v \<le> 10 - (depth + int n))"
proof (induction fuel arbitrary: board depth isMaximizing v n)
  case 0
  then show ?case by simp
next
  case (Suc fuel)
  note wf = Suc.prems(1) and mover = Suc.prems(2) and len = Suc.prems(3)
    and d0 = Suc.prems(4) and dom = Suc.prems(5) and mm = Suc.prems(6)
  have sym: "aiSymbol \<noteq> ''''" "playerSymbol \<noteq> ''''" "aiSymbol \<noteq> playerSymbol"
    using xo by auto
  have cw: "checkWin board \<longleftrightarrow> hasLine aiSymbol board \<or> hasLine playerSymbol board"
    by (rule checkWin_symbols [OF xo])
  let ?moves = "getAvailableMoves board"
  let ?fw = "\<lambda>n. forced_win n board isMaximizing aiSymbol playerSymbol"
  show ?case
  proof (cases "hasLine aiSymbol board")
    case True
    then have nm: "\<not> isMaximizing" using mover by (cases isMaximizing) simp_all
    have v: "v = 10 - depth" using mm True cw nm by simp
    have "?fw k" for k using True by (rule forced_win_line)
    then show ?thesis using v by (cases n) auto
  next
    case noai: False
    show ?thesis
    proof (cases "hasLine playerSymbol board")
      case True
      then have im: "isMaximizing" using mover by (cases isMaximizing) simp_all
      have v: "v = - 10 + depth" using mm True cw im by simp
      have "\<not> ?fw k" for k using noai True by (rule forced_win_lost)
      then show ?thesis using v d0 dom by auto
    next
      case nopl: False
      have ncw: "\<not> checkWin board" using cw noai nopl by simp
      note fw = forced_win_no_line [OF noai nopl, of _ isMaximizing]
      show ?thesis
      proof (cases "isDraw board")
        case True
        then have e: "?moves = []" using isDraw_iff_no_moves [OF wf] by simp
        have v: "v = 0" using mm ncw True by simp
        have "\<not> ?fw k" for k unfolding fw using e by auto
        then show ?thesis using v by auto
      next
        case nd: False
        have ne: "?moves \<noteq> []" using nd isDraw_iff_no_moves [OF wf] by simp
        let ?s = "if isMaximizing then aiSymbol else playerSymbol"
        let ?o = "if isMaximizing then playerSymbol else aiSymbol"
        let ?child = "\<lambda>m. set_cell board (fst m) (snd m) ?s"
        have len': "length ?moves \<le> fuel" using len by simp
        obtain val w where
          val: "\<forall>m\<in>set ?moves. minimax fuel (?child m) (depth + 1) (\<not> isMaximizing)
                  aiSymbol playerSymbol = Some (Fin (val m), ?child m)"
          and w: "minimax (Suc fuel) board depth isMaximizing aiSymbol playerSymbol =
                    Some (Fin w, board)"
          and ge: "\<And>k. (k \<le> w) = (if isMaximizing then \<exists>m\<in>set ?moves. k \<le> val m
                                         else \<forall>m\<in>set ?moves. k \<le> val m)"
          and le: "\<And>k. (w \<le> k) = (if isMaximizing then \<forall>m\<in>set ?moves. val m \<le> k
                                         else \<exists>m\<in>set ?moves. val m \<le> k)"
          using node_value [OF wf sym(1,2) ncw nd len', of isMaximizing depth] by blast
        have vw: "v = w" using mm w by simp
        have e1: "1 \<le> length ?moves" using ne by (cases ?moves) auto
        have child: "(forced_win j (?child m) (\<not> isMaximizing) aiSymbol playerSymbol \<longrightarrow>
                        10 - (depth + 1 + int j) \<le> val m) \<and>
                     (depth + 1 + int j \<le> 10 \<and>
                      (j = 0 \<or> \<not> forced_win (j - 1) (?child m) (\<not> isMaximizing)
                                   aiSymbol playerSymbol) \<longrightarrow>
                        val m \<le> 10 - (depth + 1 + int j))"
          if m: "m \<in> set ?moves" for m j
        proof (rule Suc.IH)
          have m': "(fst m, snd m) \<in> set ?moves" using m by simp
          have c: "(fst m, snd m) \<in> set cells" using m' by (rule moves_in_cells)
          show "wf_board (?child m)" by (rule wf_set_cell [OF wf])
          have os: "?o \<noteq> ?s" using sym(3) by auto
          have "\<not> hasLine ?o board" using noai nopl by simp
          then have "\<not> hasLine ?o (?child m)"
            using hasLine_before [OF wf c os] by blast
          then show "\<not> hasLine (if \<not> isMaximizing then aiSymbol else playerSymbol) (?child m)"
            by (cases isMaximizing) simp_all
          have s: "?s \<noteq> ''''" using sym by simp
          have dec: "Suc (length (getAvailableMoves (?child m))) = length ?moves"
            by (rule moves_decrease [OF wf m' s])
          show "length (getAvailableMoves (?child m)) < fuel" using dec len by linarith
          show "0 \<le> depth + 1" using d0 by simp
          show "depth + 1 + int (length (getAvailableMoves (?child m))) \<le> 9"
            using dec dom by linarith
          show "minimax fuel (?child m) (depth + 1) (\<not> isMaximizing) aiSymbol playerSymbol =
                  Some (Fin (val m), ?child m)"
            using val m by blast
        qed
        have fwS: "?fw (Suc k) \<longleftrightarrow>
            (if isMaximizing then
               \<exists>m\<in>set ?moves. forced_win k (?child m) (\<not> isMaximizing) aiSymbol playerSymbol
             else
               \<forall>m\<in>set ?moves. forced_win k (?child m) (\<not> isMaximizing) aiSymbol playerSymbol)"
          for k
          unfolding fw using ne by (cases isMaximizing) auto
        have fw0: "\<not> ?fw 0" unfolding fw by simp
        have lower: "10 - (depth + int n) \<le> v" if f: "?fw n"
        proof -
          obtain k where n: "n = Suc k" using f fw0 by (cases n) auto
          have eq: "10 - (depth + int n) = 10 - (depth + 1 + int k)" unfolding n by simp
          show ?thesis
          proof (cases isMaximizing)
            case True
            then obtain m where "m \<in> set ?moves"
              "forced_win k (?child m) (\<not> isMaximizing) aiSymbol playerSymbol"
              using f fwS unfolding n by auto
            then have "m \<in> set ?moves \<and> 10 - (depth + 1 + int k) \<le> val m"
              using child [of m k] by blast
            then have "m \<in> set ?moves \<and> 10 - (depth + int n) \<le> val m"
              unfolding eq .
            then show ?thesis unfolding vw ge using True by auto
          next
            case False
            then have "\<forall>m\<in>set ?moves. forced_win k (?child m) (\<not> isMaximizing)
                         aiSymbol playerSymbol"
              using f fwS unfolding n by auto
            then have "\<forall>m\<in>set ?moves. 10 - (depth + 1 + int k) \<le> val m"
              using child by blast
            then have "\<forall>m\<in>set ?moves. 10 - (depth + int n) \<le> val m"
              unfolding eq .
            then show ?thesis unfolding vw ge using False by auto
          qed
        qed
        have upper: "v \<le> 10 - (depth + int n)"
          if b: "depth + int n \<le> 10" and f: "n = 0 \<or> \<not> ?fw (n - 1)"
        proof (cases n)
          case 0
          have "\<forall>m\<in>set ?moves. val m \<le> 10 - (depth + int n)"
          proof
            fix m assume m: "m \<in> set ?moves"
            have "depth + 1 + int 0 \<le> 10" using dom e1 by linarith
            then have "val m \<le> 10 - (depth + 1 + int 0)" using child [OF m, of 0] by simp
            then show "val m \<le> 10 - (depth + int n)" unfolding 0 by simp
          qed
          then show ?thesis unfolding vw le using ne by (cases ?moves) auto
        next
          case (Suc k)
          have eq: "10 - (depth + int n) = 10 - (depth + 1 + int k)" unfolding Suc by simp
          have bk: "depth + 1 + int k \<le> 10" using b unfolding Suc by simp
          have nf: "\<not> ?fw k" using f unfolding Suc by simp
          have good: "val m \<le> 10 - (depth + int n)"
            if m: "m \<in> set ?moves"
              and c: "k = 0 \<or> \<not> forced_win (k - 1) (?child m) (\<not> isMaximizing)
                                 aiSymbol playerSymbol" for m
          proof -
            have "val m \<le> 10 - (depth + 1 + int k)" using child [OF m, of k] bk c by blast
            then show ?thesis unfolding eq .
          qed
          show ?thesis
          proof (cases k)
            case 0
            then have "\<forall>m\<in>set ?moves. val m \<le> 10 - (depth + int n)" using good by simp
            then show ?thesis unfolding vw le using ne by (cases ?moves) auto
          next
            case (Suc j)
            show ?thesis
            proof (cases isMaximizing)
              case True
              then have "\<forall>m\<in>set ?moves. \<not> forced_win j (?child m) (\<not> isMaximizing)
                           aiSymbol playerSymbol"
                using nf fwS unfolding Suc by auto
              then have "\<forall>m\<in>set ?moves. val m \<le> 10 - (depth + int n)"
                using good unfolding Suc by simp
              then show ?thesis unfolding vw le using True by auto
            next
              case False
              then obtain m where "m \<in> set ?moves"
                "\<not> forced_win j (?child m) (\<not> isMaximizing) aiSymbol playerSymbol"
                using nf fwS unfolding Suc by auto
              then have "m \<in> set ?moves \<and> val m \<le> 10 - (depth + int n)"
                using good [of m] unfolding Suc by simp
              then show ?thesis unfolding vw le using False by auto
            qed
          qed
        qed
        show ?thesis using lower upper by blast
      qed
    qed
  qed
qed

lemma minimax_swap:
  assumes sym: "aiSymbol \<noteq> ''''" "playerSymbol \<noteq> ''''"
  shows "wf_board board \<Longrightarrow> length (getAvailableMoves board) < fuel \<Longrightarrow>
     minimax fuel board depth isMaximizing aiSymbol playerSymbol = Some (Fin v, board) \<Longrightarrow>
     minimax fuel board depth (\<not> isMaximizing) playerSymbol aiSymbol = Some (Fin (- v), board)"
proof (induction fuel arbitrary: board depth isMaximizing v)
  case 0
  then show ?case by simp
next
  case (Suc fuel)
  note wf = Suc.prems(1) and len = Suc.prems(2) and mm = Suc.prems(3)
  show ?case
  proof (cases "checkWin board \<or> isDraw board")
    case True
    then show ?thesis using mm by (auto split: if_splits)
  next
    case False
    then have nt: "\<not> checkWin board" "\<not> isDraw board" by simp_all
    let ?moves = "getAvailableMoves board"
    let ?s = "if isMaximizing then aiSymbol else playerSymbol"
    let ?child = "\<lambda>m. set_cell board (fst m) (snd m) ?s"
    have s': "(if \<not> isMaximizing then playerSymbol else aiSymbol) = ?s" by simp
    have len': "length ?moves \<le> fuel" using len by simp
    have ne: "?moves \<noteq> []" using nt(2) isDraw_iff_no_moves [OF wf] by simp
    obtain val w where
      val: "\<forall>m\<in>set ?moves. minimax fuel (?child m) (depth + 1) (\<not> isMaximizing)
              aiSymbol playerSymbol = Some (Fin (val m), ?child m)"
      and w: "minimax (Suc fuel) board depth isMaximizing aiSymbol playerSymbol =
                Some (Fin w, board)"
      and ge: "\<And>k. (k \<le> w) = (if isMaximizing then \<exists>m\<in>set ?moves. k \<le> val m
                                     else \<forall>m\<in>set ?moves. k \<le> val m)"
      and le: "\<And>k. (w \<le> k) = (if isMaximizing then \<forall>m\<in>set ?moves. val m \<le> k
                                     else \<exists>m\<in>set ?moves. val m \<le> k)"
      using node_value [OF wf sym nt len', of isMaximizing depth] by blast
    obtain val' w' where
      val': "\<forall>m\<in>set ?moves. minimax fuel (?child m) (depth + 1) (\<not> \<not> isMaximizing)
              playerSymbol aiSymbol = Some (Fin (val' m), ?child m)"
      and w': "minimax (Suc fuel) board depth (\<not> isMaximizing) playerSymbol aiSymbol =
                Some (Fin w', board)"
      and ge': "\<And>k. (k \<le> w') = (if \<not> isMaximizing then \<exists>m\<in>set ?moves. k \<le> val' m
                                     else \<forall>m\<in>set ?moves. k \<le> val' m)"
      and le': "\<And>k. (w' \<le> k) = (if \<not> isMaximizing then \<forall>m\<in>set ?moves. val' m \<le> k
                                     else \<exists>m\<in>set ?moves. val' m \<le> k)"
      using node_value [OF wf sym(2,1) nt len', of "\<not> isMaximizing" depth] unfolding s' by blast
    have vw: "v = w" using mm w by simp
    have neg: "val' m = - val m" if m: "m \<in> set ?moves" for m
    proof -
      have m': "(fst m, snd m) \<in> set ?moves" using m by simp
      have s: "?s \<noteq> ''''" using sym by simp
      have "length (getAvailableMoves (?child m)) < fuel"
        using moves_decrease [OF wf m' s] len by linarith
      from Suc.IH [OF wf_set_cell [OF wf] this] val m
      have "minimax fuel (?child m) (depth + 1) (\<not> \<not> isMaximizing) playerSymbol aiSymbol =
              Some (Fin (- val m), ?child m)"
        by blast
      then show ?thesis using val' m by simp
    qed
    have p1: "(val' m \<le> k) = (- k \<le> val m)" if "m \<in> set ?moves" for m k
      using neg [OF that] by linarith
    have p2: "(k \<le> val' m) = (val m \<le> - k)" if "m \<in> set ?moves" for m k
      using neg [OF that] by linarith
    have "w' = - w"
    proof (cases isMaximizing)
      case True
      have "(w' \<le> k) = (- w \<le> k)" for k
      proof -
        have "(w' \<le> k) = (\<exists>m\<in>set ?moves. val' m \<le> k)" using le' [of k] True by simp
        also have "\<dots> = (\<exists>m\<in>set ?moves. - k \<le> val m)" using p1 by blast
        also have "\<dots> = (- k \<le> w)" using ge [of "- k"] True by simp
        finally show ?thesis by auto
      qed
      from this [of "- w"] this [of w'] show ?thesis by simp
    next
      case False
      have "(k \<le> w') = (k \<le> - w)" for k
      proof -
        have "(k \<le> w') = (\<exists>m\<in>set ?moves. k \<le> val' m)" using ge' [of k] False by simp
        also have "\<dots> = (\<exists>m\<in>set ?moves. val m \<le> - k)" using p2 by blast
        also have "\<dots> = (w \<le> - k)" using le [of "- k"] False by simp
        finally show ?thesis by auto
      qed
      from this [of "- w"] this [of w'] show ?thesis by simp
    qed
    then show ?thesis using w' vw by simp
  qed
qed

lemma forced_win_in_score:
  assumes "wf_board board"
    and xo: "aiSymbol = ''X'' \<and> playerSymbol = ''O'' \<or> aiSymbol = ''O'' \<and> playerSymbol = ''X''"
    and "\<not> hasLine (if isMaximizing then aiSymbol else playerSymbol) board"
    and "0 \<le> depth" "depth + int (length (getAvailableMoves board)) \<le> 9"
    and "length (getAvailableMoves board) < fuel"
    and "depth + int n \<le> 9"
    and f: "forced_win_in n board isMaximizing aiSymbol playerSymbol"
  shows "minimax fuel board depth isMaximizing aiSymbol playerSymbol =
           Some (Fin (10 - (depth + int n)), board)"
proof -
  have sym: "aiSymbol \<noteq> ''''" "playerSymbol \<noteq> ''''" using xo by auto
  obtain v where v: "minimax fuel board depth isMaximizing aiSymbol playerSymbol =
      Some (Fin v, board)"
    using minimax_total [OF sym assms(1,6)] by blast
  note b = value_bounds [OF xo assms(1,3,6,4,5) v, of n]
  have fw: "forced_win n board isMaximizing aiSymbol playerSymbol"
    and nf: "n = 0 \<or> \<not> forced_win (n - 1) board isMaximizing aiSymbol playerSymbol"
    using f by (auto simp: forced_win_in_def split: nat.splits)
  have "10 - (depth + int n) \<le> v" using b fw by blast
  moreover have "v \<le> 10 - (depth + int n)" using b nf assms(7) by auto
  ultimately show ?thesis using v by simp
qed

lemma forced_loss_in_score:
  assumes "wf_board board"
    and xo: "aiSymbol = ''X'' \<and> playerSymbol = ''O'' \<or> aiSymbol = ''O'' \<and> playerSymbol = ''X''"
    and "\<not> hasLine (if isMaximizing then aiSymbol else playerSymbol) board"
    and "0 \<le> depth" "depth + int (length (getAvailableMoves board)) \<le> 9"
    and "length (getAvailableMoves board) < fuel"
    and "depth + int n \<le> 9"
    and f: "forced_win_in n board (\<not> isMaximizing) playerSymbol aiSymbol"
  shows "minimax fuel board depth isMaximizing aiSymbol playerSymbol =
           Some (Fin (- 10 + (depth + int n)), board)"
proof -
  have sym: "aiSymbol \<noteq> ''''" "playerSymbol \<noteq> ''''" using xo by auto
  have ox: "playerSymbol = ''X'' \<and> aiSymbol = ''O'' \<or> playerSymbol = ''O'' \<and> aiSymbol = ''X''"
    using xo by auto
  have mover: "\<not> hasLine (if \<not> isMaximizing then playerSymbol else aiSymbol) board"
    using assms(3) by (cases isMaximizing) simp_all
  have "minimax fuel board depth (\<not> isMaximizing) playerSymbol aiSymbol =
           Some (Fin (10 - (depth + int n)), board)"
    by (rule forced_win_in_score [OF assms(1) ox mover assms(4,5,6,7) f])
  from minimax_swap [OF sym(2,1) assms(1,6) this] show ?thesis by simp
qed

section \<open>The claims\<close>

subsection \<open>C1: scenario A\<close>

text \<open>
  C1, as stated: on the board of scenario A with X to move, \<open>getBestMove\<close> returns
  \<open>(2, 2)\<close>. It does not: the pair it returns is another one.
\<close>

theorem C1_counterexample:
  "map_option fst (getBestMove 10 scenarioA ''X'') \<noteq> Some (2, 2)"
  by code_simp

text \<open>
  C1, amended: on the board of scenario A with X to move, \<open>getBestMove\<close> returns
  \<open>(2, 0)\<close>, which completes the other diagonal, and leaves the board as it was. The
  moves \<open>(2, 0)\<close> and \<open>(2, 2)\<close> both score 10, an immediate win at depth 0, and
  \<open>(2, 0)\<close> comes first; \<open>(2, 1)\<close> scores 8.
\<close>

theorem C1_scenarioA:
  "getBestMove 10 scenarioA ''X'' = Some ((2, 0), scenarioA) \<and>
   getAvailableMoves scenarioA = [(2, 0), (2, 1), (2, 2)] \<and>
   map_option fst (minimax 10 (set_cell scenarioA 2 0 ''X'') 0 False ''X'' ''O'') = Some (Fin 10) \<and>
   map_option fst (minimax 10 (set_cell scenarioA 2 1 ''X'') 0 False ''X'' ''O'') = Some (Fin 8) \<and>
   map_option fst (minimax 10 (set_cell scenarioA 2 2 ''X'') 0 False ''X'' ''O'') = Some (Fin 10)"
  by code_simp

subsection \<open>C3: draw detection\<close>

text \<open>
  C3, as stated: \<open>isDraw\<close> holds if and only if every cell is non-empty and \<open>checkWin\<close>
  reports no line. On a full board with a completed row of X, \<open>isDraw\<close> holds although
  \<open>checkWin\<close> reports the line.
\<close>

theorem C3_counterexample:
  "\<not> (isDraw fullWon \<longleftrightarrow>
        list_all (\<lambda>row. list_all (\<lambda>cell. cell \<noteq> Some '''') row) fullWon \<and> \<not> checkWin fullWon)"
  by code_simp

text \<open>
  C3, amended: on a 3 by 3 board \<open>isDraw\<close> holds if and only if each of the nine cells
  is non-empty; it does not look at the lines.
\<close>

theorem C3_isDraw_full:
  assumes "wf_board board"
  shows "isDraw board \<longleftrightarrow> (\<forall>(row, col) \<in> set cells. cell_at board row col \<noteq> Some '''')"
proof -
  obtain a b c d e f g h i where "board = [[a, b, c], [d, e, f], [g, h, i]]"
    using assms unfolding wf_board_conv by blast
  then show ?thesis
    by (simp add: isDraw_def cells_def cell_at_def)
qed

text \<open>C3, witness: the full board with a completed row of X.\<close>

theorem C3_isDraw_full_witness:
  "wf_board fullWon \<and> isDraw fullWon \<and> checkWin fullWon \<and>
   list_all (\<lambda>(row, col). cell_at fullWon row col \<noteq> Some '''') cells"
proof -
  have wf: "wf_board fullWon" by (simp add: fullWon_def wf_board_def)
  have d: "isDraw fullWon" by code_simp
  have w: "checkWin fullWon" by code_simp
  have "\<forall>(row, col) \<in> set cells. cell_at fullWon row col \<noteq> Some ''''"
    using C3_isDraw_full [OF wf] d by blast
  then have "list_all (\<lambda>(row, col). cell_at fullWon row col \<noteq> Some '''') cells"
    by (simp only: list_all_iff)
  then show ?thesis using wf d w by blast
qed

subsection \<open>C4: moves that are not played\<close>




subsection \<open>C7: termination\<close>

text \<open>
  C7: on a 3 by 3 board and with non-empty symbols the search terminates. A board has
  at most nine empty cells; each move of the loop fills exactly one, so the board of
  the nested call has one empty cell less; a number of nested calls larger than the
  number of empty cells is enough for \<open>minimax\<close> to return, so ten are enough on every
  board, and nine for the calls that \<open>getBestMove\<close> makes.
\<close>

theorem C7_minimax_terminates:
  assumes "wf_board board" "aiSymbol \<noteq> ''''" "playerSymbol \<noteq> ''''"
  shows "length (getAvailableMoves board) \<le> 9 \<and>
    (\<forall>(row, col) \<in> set (getAvailableMoves board).
        Suc (length (getAvailableMoves
               (set_cell board row col (if isMaximizing then aiSymbol else playerSymbol)))) =
        length (getAvailableMoves board)) \<and>
    (\<forall>fuel. length (getAvailableMoves board) < fuel \<longrightarrow>
        (\<exists>v. minimax fuel board depth isMaximizing aiSymbol playerSymbol = Some (Fin v, board))) \<and>
    (\<exists>v. minimax 10 board depth isMaximizing aiSymbol playerSymbol = Some (Fin v, board)) \<and>
    (\<exists>m. getBestMove 9 board aiSymbol = Some (m, board))"
proof (intro conjI)
  show le: "length (getAvailableMoves board) \<le> 9" by (rule length_moves_le)
  show "\<forall>(row, col) \<in> set (getAvailableMoves board).
        Suc (length (getAvailableMoves
               (set_cell board row col (if isMaximizing then aiSymbol else playerSymbol)))) =
        length (getAvailableMoves board)"
    using moves_decrease [OF assms(1)] assms(2,3) by auto
  show "\<forall>fuel. length (getAvailableMoves board) < fuel \<longrightarrow>
        (\<exists>v. minimax fuel board depth isMaximizing aiSymbol playerSymbol = Some (Fin v, board))"
    using minimax_total [OF assms(2,3,1)] by blast
  show "\<exists>v. minimax 10 board depth isMaximizing aiSymbol playerSymbol = Some (Fin v, board)"
    by (rule minimax_total [OF assms(2,3,1)]) (use le in linarith)
  show "\<exists>m. getBestMove 9 board aiSymbol = Some (m, board)"
    using getBestMove_total [OF assms(1,2) le] by blast
qed

text \<open>C7, witness: the empty board, X to move against O.\<close>

theorem C7_minimax_terminates_witness:
  "wf_board emptyBoard \<and> ''X'' \<noteq> '''' \<and> ''O'' \<noteq> '''' \<and>
   length (getAvailableMoves emptyBoard) = 9 \<and>
   length (getAvailableMoves (set_cell emptyBoard 0 0 ''X'')) = 8 \<and>
   (\<exists>v. minimax 10 emptyBoard 0 True ''X'' ''O'' = Some (Fin v, emptyBoard)) \<and>
   (\<exists>m. getBestMove 9 emptyBoard ''X'' = Some (m, emptyBoard))"
proof -
  have x: "''X'' \<noteq> ''''" and o: "''O'' \<noteq> ''''" by simp_all
  note t = C7_minimax_terminates [OF wf_emptyBoard x o, of True 0]
  have n: "length (getAvailableMoves emptyBoard) = 9" by code_simp
  have m: "(0, 0) \<in> set (getAvailableMoves emptyBoard)" by code_simp
  have "Suc (length (getAvailableMoves (set_cell emptyBoard 0 0 ''X''))) = 9"
    using t m n by auto
  then have "length (getAvailableMoves (set_cell emptyBoard 0 0 ''X'')) = 8" by simp
  then show ?thesis using t n wf_emptyBoard by simp
qed

subsection \<open>C8: determinism\<close>

text \<open>
  C8: on a 3 by 3 board and with a non-empty symbol, \<open>getBestMove\<close> returns one move:
  every call whose bound on nested calls is at least nine returns that same move and
  the board unchanged, so the bound has no influence on the result; and a second call,
  made on the board that a first call has left, returns what the first call returned.
\<close>

theorem C8_getBestMove_deterministic:
  assumes "wf_board board" "aiSymbol \<noteq> ''''"
  shows
    "(\<exists>m. \<forall>fuel. 9 \<le> fuel \<longrightarrow> getBestMove fuel board aiSymbol = Some (m, board)) \<and>
     (\<forall>fuel1 fuel2 r1 r2.
        getBestMove fuel1 board aiSymbol = Some r1 \<longrightarrow>
        getBestMove fuel2 (snd r1) aiSymbol = Some r2 \<longrightarrow> r2 = r1)"
proof (rule conjI)
  have le: "length (getAvailableMoves board) \<le> 9" by (rule length_moves_le)
  obtain m where m: "getBestMove 9 board aiSymbol = Some (m, board)"
    using getBestMove_total [OF assms le] by blast
  show "\<exists>m. \<forall>fuel. 9 \<le> fuel \<longrightarrow> getBestMove fuel board aiSymbol = Some (m, board)"
    using getBestMove_mono [OF m] by blast
  show "\<forall>fuel1 fuel2 r1 r2.
        getBestMove fuel1 board aiSymbol = Some r1 \<longrightarrow>
        getBestMove fuel2 (snd r1) aiSymbol = Some r2 \<longrightarrow> r2 = r1"
  proof (intro allI impI)
    fix fuel1 fuel2 r1 r2
    assume a: "getBestMove fuel1 board aiSymbol = Some r1"
      and b: "getBestMove fuel2 (snd r1) aiSymbol = Some r2"
    have s: "snd r1 = board"
      using getBestMove_board [OF assms, of fuel1 "fst r1" "snd r1"] a by simp
    have "getBestMove (max fuel1 fuel2) board aiSymbol = Some r1"
      by (rule getBestMove_mono [OF a]) simp
    moreover have "getBestMove (max fuel1 fuel2) board aiSymbol = Some r2"
      by (rule getBestMove_mono [OF b [unfolded s]]) simp
    ultimately show "r2 = r1" by simp
  qed
qed

text \<open>C8, witness: scenario A, with two different bounds.\<close>

theorem C8_getBestMove_deterministic_witness:
  "wf_board scenarioA \<and> ''X'' \<noteq> '''' \<and>
   getBestMove 3 scenarioA ''X'' = Some ((2, 0), scenarioA) \<and>
   getBestMove 10 scenarioA ''X'' = Some ((2, 0), scenarioA)"
proof -
  have wf: "wf_board scenarioA" by (simp add: scenarioA_def wf_board_def)
  have x: "''X'' \<noteq> ''''" by simp
  note t = C8_getBestMove_deterministic [OF wf x]
  have g: "getBestMove 3 scenarioA ''X'' = Some ((2, 0), scenarioA)" by code_simp
  obtain r where r: "getBestMove 10 scenarioA ''X'' = Some r" using t by force
  have "r = ((2, 0), scenarioA)" using t g r by (metis snd_conv)
  then show ?thesis using wf g r by simp
qed

subsection \<open>C9: the search leaves the board as it was\<close>

text \<open>
  C9: on a 3 by 3 board and with non-empty symbols, whenever \<open>minimax\<close> or
  \<open>getBestMove\<close> returns, the board it returns is the board it was given; within an
  iteration, the mark written at an available move is read back there, and writing the
  empty string at the same place gives back the board; and both functions do return.
\<close>

theorem C9_search_restores_board:
  assumes "wf_board board" "aiSymbol \<noteq> ''''" "playerSymbol \<noteq> ''''"
  shows
    "(\<forall>fuel depth isMaximizing score board'.
        minimax fuel board depth isMaximizing aiSymbol playerSymbol = Some (score, board') \<longrightarrow>
        board' = board) \<and>
     (\<forall>fuel m board'. getBestMove fuel board aiSymbol = Some (m, board') \<longrightarrow> board' = board) \<and>
     (\<forall>(row, col) \<in> set (getAvailableMoves board). \<forall>v.
        cell_at (set_cell board row col v) row col = Some v \<and>
        set_cell (set_cell board row col v) row col '''' = board) \<and>
     (\<exists>score. minimax 10 board depth isMaximizing aiSymbol playerSymbol = Some (score, board)) \<and>
     (\<exists>m. getBestMove 9 board aiSymbol = Some (m, board))"
proof (intro conjI allI impI)
  show "board' = board"
    if "minimax fuel board depth isMaximizing aiSymbol playerSymbol = Some (score, board')"
    for fuel depth isMaximizing score board'
    using minimax_board [OF assms that] by simp
  show "board' = board" if "getBestMove fuel board aiSymbol = Some (m, board')"
    for fuel m board'
    using getBestMove_board [OF assms(1,2) that] .
  show "\<forall>(row, col) \<in> set (getAvailableMoves board). \<forall>v.
        cell_at (set_cell board row col v) row col = Some v \<and>
        set_cell (set_cell board row col v) row col '''' = board"
  proof (clarify, rule conjI)
    fix row col v assume m: "(row, col) \<in> set (getAvailableMoves board)"
    have c: "(row, col) \<in> set cells" using m by (rule moves_in_cells)
    show "cell_at (set_cell board row col v) row col = Some v"
      by (simp add: cell_at_set_cell [OF assms(1) c c])
    show "set_cell (set_cell board row col v) row col '''' = board"
      by (rule set_cell_undo [OF moves_empty_cell [OF m]])
  qed
  have le: "length (getAvailableMoves board) \<le> 9" by (rule length_moves_le)
  have "\<exists>v. minimax 10 board depth isMaximizing aiSymbol playerSymbol = Some (Fin v, board)"
    by (rule minimax_total [OF assms(2,3,1)]) (use le in linarith)
  then show "\<exists>score. minimax 10 board depth isMaximizing aiSymbol playerSymbol = Some (score, board)"
    by blast
  show "\<exists>m. getBestMove 9 board aiSymbol = Some (m, board)"
    using getBestMove_total [OF assms(1,2) le] by blast
qed

text \<open>C9, witness: scenario A and its first available move.\<close>

theorem C9_search_restores_board_witness:
  "wf_board scenarioA \<and> ''X'' \<noteq> '''' \<and> ''O'' \<noteq> '''' \<and>
   getBestMove 10 scenarioA ''X'' = Some ((2, 0), scenarioA) \<and>
   cell_at (set_cell scenarioA 2 0 ''X'') 2 0 = Some ''X'' \<and>
   set_cell (set_cell scenarioA 2 0 ''X'') 2 0 '''' = scenarioA"
proof -
  have wf: "wf_board scenarioA" by (simp add: scenarioA_def wf_board_def)
  have x: "''X'' \<noteq> ''''" and o: "''O'' \<noteq> ''''" by simp_all
  note t = C9_search_restores_board [OF wf x o, of 0 False]
  have g: "map_option fst (getBestMove 10 scenarioA ''X'') = Some (2, 0)" by code_simp
  then obtain b where "getBestMove 10 scenarioA ''X'' = Some ((2, 0), b)" by auto
  then have b: "getBestMove 10 scenarioA ''X'' = Some ((2, 0), scenarioA)" using t by auto
  have m: "(2, 0) \<in> set (getAvailableMoves scenarioA)" by code_simp
  have "cell_at (set_cell scenarioA 2 0 ''X'') 2 0 = Some ''X'' \<and>
        set_cell (set_cell scenarioA 2 0 ''X'') 2 0 '''' = scenarioA"
    using t m by blast
  then show ?thesis using wf b by simp
qed

subsection \<open>C10: the search on a full board\<close>

text \<open>
  C10: on a 3 by 3 board with no empty cell, \<open>getBestMove\<close> returns the pair
  \<open>(-1, -1)\<close> and the board unchanged, whatever the symbol and the bound; the pair is
  none of the nine cells; and \<open>aiMove\<close>, which indexes the grid with it, throws and
  leaves the component as it was.
\<close>

theorem C10_full_board_sentinel:
  assumes "wf_board (grid s)" "isDraw (grid s)"
  shows "getBestMove fuel (grid s) aiSymbol = Some ((- 1, - 1), grid s) \<and>
         (- 1, - 1) \<notin> set cells \<and>
         aiMove fuel s = Some (Throws TypeError s)"
proof -
  have e: "getAvailableMoves (grid s) = []"
    using isDraw_iff_no_moves [OF assms(1)] assms(2) by simp
  have g: "getBestMove fuel (grid s) a = Some ((- 1, - 1), grid s)" for a
    by (rule getBestMove_empty [OF e])
  have "(- 1, - 1) \<notin> set cells" by (simp add: cells_def)
  moreover have "row_at t (Finite (of_int (- 1))) = None" for t
    by (simp add: row_at_def array_index_def)
  then have "aiMove fuel s = Some (Throws TypeError s)"
    by (simp add: aiMove_def g)
  ultimately show ?thesis using g by simp
qed

text \<open>C10, witness: the board of scenario C, which is full and has no completed line.\<close>

theorem C10_full_board_sentinel_witness:
  "wf_board scenarioC \<and> isDraw scenarioC \<and> \<not> checkWin scenarioC \<and>
   getBestMove 10 scenarioC ''X'' = Some ((- 1, - 1), scenarioC) \<and>
   aiMove 10 \<lparr>grid = scenarioC, rowProps = [], currentPlayer = ''X'',
               gameStatus = ''Playing'', selectedPlayer = ''O'', gameStarted = True,
               gameMode = ''single''\<rparr>
     = Some (Throws TypeError
         \<lparr>grid = scenarioC, rowProps = [], currentPlayer = ''X'',
          gameStatus = ''Playing'', selectedPlayer = ''O'', gameStarted = True,
          gameMode = ''single''\<rparr>)"
proof -
  let ?s = "\<lparr>grid = scenarioC, rowProps = [], currentPlayer = ''X'',
               gameStatus = ''Playing'', selectedPlayer = ''O'', gameStarted = True,
               gameMode = ''single''\<rparr>"
  have d: "isDraw scenarioC" by code_simp
  have w: "\<not> checkWin scenarioC" by code_simp
  have "wf_board (grid ?s)" "isDraw (grid ?s)" using wf_scenarioC d by simp_all
  from C10_full_board_sentinel [OF this, of 10 "''X''"]
  show ?thesis using wf_scenarioC d w by simp
qed

subsection \<open>C2: the opening move of the automated side\<close>

text \<open>
  C2 says that, when the human has selected O in single mode, the board after
  \<open>startGame\<close> holds the opening X of the automated side. The code does not do that:
  from a new component, after \<^verbatim>\<open>setGameMode('single')\<close> and \<^verbatim>\<open>selectPlayer('O')\<close>,
  \<open>startGame\<close> returns with the empty board, all nine cells available, because it calls
  \<open>resetGame\<close> after \<open>aiMove\<close>; the call of \<open>aiMove\<close> inside had put X on \<open>(0, 0)\<close>.
\<close>

theorem C2_opening_move_discarded:
  "(\<exists>s'. startGame 9 (selectPlayer (setGameMode new_component ''single'') ''O'') =
           Some (Returns s') \<and>
         grid s' = emptyBoard \<and> currentPlayer s' = ''O'') \<and>
   getAvailableMoves emptyBoard = cells \<and>
   (\<exists>s'. aiMove 9 ((selectPlayer (setGameMode new_component ''single'') ''O'')
                     \<lparr>gameStarted := True, currentPlayer := ''X''\<rparr>) = Some (Returns s') \<and>
         grid s' = set_cell emptyBoard 0 0 ''X'')"
proof -
  let ?s = "selectPlayer (setGameMode new_component ''single'') ''O''"
  have g: "grid ?s = emptyBoard"
    by (simp add: selectPlayer_def setGameMode_def new_component_simps)
  have c: "getAvailableMoves emptyBoard = cells" by (rule emptyBoard_moves)
  have "\<exists>s'. startGame 9 ?s = Some (Returns s') \<and> grid s' = emptyBoard \<and>
          currentPlayer s' = ''O''"
  proof (rule startGame_single_O)
    show "wf_board (grid ?s)" using wf_emptyBoard g by simp
    show "getAvailableMoves (grid ?s) \<noteq> []" using c g by (simp add: cells_def)
    show "length (getAvailableMoves (grid ?s)) \<le> 9" by (rule length_moves_le)
    show "selectedPlayer ?s = ''O''" by (simp add: selectPlayer_def)
    show "gameMode ?s = ''single''" by (simp add: selectPlayer_def setGameMode_def)
  qed
  then show ?thesis using c opening_move by blast
qed

subsection \<open>C6: scores count plies\<close>

text \<open>
  C6. Take a node of the search: a 3 by 3 board on which the side to move has no
  completed line, evaluated at a depth from 0 to 9 that leaves room for its empty cells
  (depth plus number of empty cells at most 9, as at every node that the search reaches
  from depth 0), the two symbols being X and O. If the opponent has a completed line the
  node scores \<open>-10 + depth\<close>, if the automated side has one it scores \<open>10 - depth\<close>, and
  if the board is full without a line it scores 0. If the automated side has a forced
  win in exactly \<open>n\<close> plies the node scores \<open>10 - (depth + n)\<close>, the score of the won
  node \<open>n\<close> plies deeper; if the opponent has a forced win in exactly \<open>n\<close> plies it scores
  \<open>-10 + (depth + n)\<close>. Hence, of two nodes at one depth, the one with the faster forced
  win scores strictly more, and the one with the slower forced loss scores strictly more.
\<close>

theorem C6_scores_count_plies:
  assumes "wf_board board"
    and "aiSymbol = ''X'' \<and> playerSymbol = ''O'' \<or> aiSymbol = ''O'' \<and> playerSymbol = ''X''"
    and "\<not> hasLine (if isMaximizing then aiSymbol else playerSymbol) board"
    and "0 \<le> depth" "depth + int (length (getAvailableMoves board)) \<le> 9"
    and "length (getAvailableMoves board) < fuel"
  shows
    "(hasLine playerSymbol board \<longrightarrow>
        minimax fuel board depth isMaximizing aiSymbol playerSymbol =
          Some (Fin (- 10 + depth), board)) \<and>
     (hasLine aiSymbol board \<longrightarrow>
        minimax fuel board depth isMaximizing aiSymbol playerSymbol =
          Some (Fin (10 - depth), board)) \<and>
     (\<not> checkWin board \<and> isDraw board \<longrightarrow>
        minimax fuel board depth isMaximizing aiSymbol playerSymbol = Some (Fin 0, board)) \<and>
     (\<forall>n. depth + int n \<le> 9 \<and> forced_win_in n board isMaximizing aiSymbol playerSymbol \<longrightarrow>
        minimax fuel board depth isMaximizing aiSymbol playerSymbol =
          Some (Fin (10 - (depth + int n)), board)) \<and>
     (\<forall>n. depth + int n \<le> 9 \<and>
          forced_win_in n board (\<not> isMaximizing) playerSymbol aiSymbol \<longrightarrow>
        minimax fuel board depth isMaximizing aiSymbol playerSymbol =
          Some (Fin (- 10 + (depth + int n)), board)) \<and>
     (\<forall>board' n n'.
        wf_board board' \<and>
        \<not> hasLine (if isMaximizing then aiSymbol else playerSymbol) board' \<and>
        depth + int (length (getAvailableMoves board')) \<le> 9 \<and>
        length (getAvailableMoves board') < fuel \<and> n < n' \<and> depth + int n' \<le> 9 \<longrightarrow>
        (forced_win_in n board isMaximizing aiSymbol playerSymbol \<and>
         forced_win_in n' board' isMaximizing aiSymbol playerSymbol \<longrightarrow>
           (\<exists>v v'. minimax fuel board depth isMaximizing aiSymbol playerSymbol =
                      Some (Fin v, board) \<and>
                    minimax fuel board' depth isMaximizing aiSymbol playerSymbol =
                      Some (Fin v', board') \<and> v' < v)) \<and>
        (forced_win_in n board (\<not> isMaximizing) playerSymbol aiSymbol \<and>
         forced_win_in n' board' (\<not> isMaximizing) playerSymbol aiSymbol \<longrightarrow>
           (\<exists>v v'. minimax fuel board depth isMaximizing aiSymbol playerSymbol =
                      Some (Fin v, board) \<and>
                    minimax fuel board' depth isMaximizing aiSymbol playerSymbol =
                      Some (Fin v', board') \<and> v < v')))"
proof -
  note win = forced_win_in_score [OF assms(1,2,3,4,5,6)]
  note loss = forced_loss_in_score [OF assms(1,2,3,4,5,6)]
  have d9: "depth + int 0 \<le> 9" using assms(5) by simp
  have lost: "minimax fuel board depth isMaximizing aiSymbol playerSymbol =
          Some (Fin (- 10 + depth), board)" if "hasLine playerSymbol board"
    using loss [OF d9] that by (simp add: forced_win_in_def)
  have won: "minimax fuel board depth isMaximizing aiSymbol playerSymbol =
          Some (Fin (10 - depth), board)" if "hasLine aiSymbol board"
    using win [OF d9] that by (simp add: forced_win_in_def)
  have draw: "minimax fuel board depth isMaximizing aiSymbol playerSymbol = Some (Fin 0, board)"
    if "\<not> checkWin board \<and> isDraw board"
  proof -
    obtain k where "fuel = Suc k" using assms(6) by (cases fuel) auto
    then show ?thesis using that by simp
  qed
  have cmp_win: "\<exists>v v'. minimax fuel board depth isMaximizing aiSymbol playerSymbol =
                      Some (Fin v, board) \<and>
                    minimax fuel board' depth isMaximizing aiSymbol playerSymbol =
                      Some (Fin v', board') \<and> v' < v"
    if h: "wf_board board'"
        "\<not> hasLine (if isMaximizing then aiSymbol else playerSymbol) board'"
        "depth + int (length (getAvailableMoves board')) \<le> 9"
        "length (getAvailableMoves board') < fuel" "n < n'" "depth + int n' \<le> 9"
      and f: "forced_win_in n board isMaximizing aiSymbol playerSymbol"
        "forced_win_in n' board' isMaximizing aiSymbol playerSymbol"
    for board' n n'
  proof -
    have dn: "depth + int n \<le> 9" using h(5,6) by linarith
    have a: "minimax fuel board depth isMaximizing aiSymbol playerSymbol =
          Some (Fin (10 - (depth + int n)), board)"
      by (rule win [OF dn f(1)])
    have b: "minimax fuel board' depth isMaximizing aiSymbol playerSymbol =
          Some (Fin (10 - (depth + int n')), board')"
      by (rule forced_win_in_score [OF h(1) assms(2) h(2) assms(4) h(3,4,6) f(2)])
    have "10 - (depth + int n') < 10 - (depth + int n)" using h(5) by simp
    then show ?thesis using a b by blast
  qed
  have cmp_loss: "\<exists>v v'. minimax fuel board depth isMaximizing aiSymbol playerSymbol =
                      Some (Fin v, board) \<and>
                    minimax fuel board' depth isMaximizing aiSymbol playerSymbol =
                      Some (Fin v', board') \<and> v < v'"
    if h: "wf_board board'"
        "\<not> hasLine (if isMaximizing then aiSymbol else playerSymbol) board'"
        "depth + int (length (getAvailableMoves board')) \<le> 9"
        "length (getAvailableMoves board') < fuel" "n < n'" "depth + int n' \<le> 9"
      and f: "forced_win_in n board (\<not> isMaximizing) playerSymbol aiSymbol"
        "forced_win_in n' board' (\<not> isMaximizing) playerSymbol aiSymbol"
    for board' n n'
  proof -
    have dn: "depth + int n \<le> 9" using h(5,6) by linarith
    have a: "minimax fuel board depth isMaximizing aiSymbol playerSymbol =
          Some (Fin (- 10 + (depth + int n)), board)"
      by (rule loss [OF dn f(1)])
    have b: "minimax fuel board' depth isMaximizing aiSymbol playerSymbol =
          Some (Fin (- 10 + (depth + int n')), board')"
      by (rule forced_loss_in_score [OF h(1) assms(2) h(2) assms(4) h(3,4,6) f(2)])
    have "- 10 + (depth + int n) < - 10 + (depth + int n')" using h(5) by simp
    then show ?thesis using a b by blast
  qed
  show ?thesis
    using lost won draw win loss cmp_win cmp_loss by blast
qed

text \<open>
  C6, witness: from the board of scenario A, X on \<open>(2, 1)\<close> wins in exactly two more
  plies and scores 8 at depth 0, X on \<open>(2, 0)\<close> has won and scores 10, and for an
  automated side playing O with X to move the loss in exactly one ply scores -8 at
  depth 1.
\<close>

theorem C6_scores_count_plies_witness:
  "wf_board (set_cell scenarioA 2 1 ''X'') \<and>
   forced_win_in 2 (set_cell scenarioA 2 1 ''X'') False ''X'' ''O'' \<and>
   minimax 10 (set_cell scenarioA 2 1 ''X'') 0 False ''X'' ''O'' =
     Some (Fin 8, set_cell scenarioA 2 1 ''X'') \<and>
   forced_win_in 0 (set_cell scenarioA 2 0 ''X'') False ''X'' ''O'' \<and>
   minimax 10 (set_cell scenarioA 2 0 ''X'') 0 False ''X'' ''O'' =
     Some (Fin 10, set_cell scenarioA 2 0 ''X'') \<and>
   forced_win_in 1 scenarioA True ''X'' ''O'' \<and>
   minimax 10 scenarioA 1 False ''O'' ''X'' = Some (Fin (- 8), scenarioA)"
proof -
  let ?b2 = "set_cell scenarioA 2 1 ''X''"
  let ?b0 = "set_cell scenarioA 2 0 ''X''"
  have wfA: "wf_board scenarioA" by (simp add: scenarioA_def wf_board_def)
  have wf2: "wf_board ?b2" and wf0: "wf_board ?b0" by (rule wf_set_cell [OF wfA])+
  have xo: "''X'' = ''X'' \<and> ''O'' = ''O'' \<or> ''X'' = ''O'' \<and> ''O'' = ''X''" by simp
  have ox: "''O'' = ''X'' \<and> ''X'' = ''O'' \<or> ''O'' = ''O'' \<and> ''X'' = ''X''" by simp
  have m2: "\<not> hasLine (if False then ''X'' else ''O'') ?b2" by code_simp
  have m0: "\<not> hasLine (if False then ''X'' else ''O'') ?b0" by code_simp
  have mA: "\<not> hasLine (if False then ''O'' else ''X'') scenarioA" by code_simp
  have l2: "length (getAvailableMoves ?b2) = 2" by code_simp
  have l0: "length (getAvailableMoves ?b0) = 2" by code_simp
  have lA: "length (getAvailableMoves scenarioA) = 3" by code_simp
  have f2: "forced_win_in 2 ?b2 False ''X'' ''O''" by code_simp
  have f0: "forced_win_in 0 ?b0 False ''X'' ''O''" by code_simp
  have fA: "forced_win_in 1 scenarioA True ''X'' ''O''" by code_simp
  have d2: "(0::int) + int (length (getAvailableMoves ?b2)) \<le> 9"
    and d0: "(0::int) + int (length (getAvailableMoves ?b0)) \<le> 9"
    and dA: "(1::int) + int (length (getAvailableMoves scenarioA)) \<le> 9"
    and u2: "length (getAvailableMoves ?b2) < 10"
    and u0: "length (getAvailableMoves ?b0) < 10"
    and uA: "length (getAvailableMoves scenarioA) < 10"
    unfolding l2 l0 lA by simp_all
  have z: "(0::int) \<le> 0" and o: "(0::int) \<le> 1" by simp_all
  have n2: "(0::int) + int 2 \<le> 9" and n0: "(0::int) + int 0 \<le> 9"
    and n1: "(1::int) + int 1 \<le> 9" by simp_all
  have "\<forall>n. 0 + int n \<le> 9 \<and> forced_win_in n ?b2 False ''X'' ''O'' \<longrightarrow>
          minimax 10 ?b2 0 False ''X'' ''O'' = Some (Fin (10 - (0 + int n)), ?b2)"
    using C6_scores_count_plies [OF wf2 xo m2 z d2 u2] by blast
  then have "minimax 10 ?b2 0 False ''X'' ''O'' = Some (Fin (10 - (0 + int 2)), ?b2)"
    using n2 f2 by blast
  then have v2: "minimax 10 ?b2 0 False ''X'' ''O'' = Some (Fin 8, ?b2)" by simp
  have "\<forall>n. 0 + int n \<le> 9 \<and> forced_win_in n ?b0 False ''X'' ''O'' \<longrightarrow>
          minimax 10 ?b0 0 False ''X'' ''O'' = Some (Fin (10 - (0 + int n)), ?b0)"
    using C6_scores_count_plies [OF wf0 xo m0 z d0 u0] by blast
  then have "minimax 10 ?b0 0 False ''X'' ''O'' = Some (Fin (10 - (0 + int 0)), ?b0)"
    using n0 f0 by blast
  then have v0: "minimax 10 ?b0 0 False ''X'' ''O'' = Some (Fin 10, ?b0)" by simp
  have "\<forall>n. 1 + int n \<le> 9 \<and> forced_win_in n scenarioA (\<not> False) ''X'' ''O'' \<longrightarrow>
          minimax 10 scenarioA 1 False ''O'' ''X'' =
            Some (Fin (- 10 + (1 + int n)), scenarioA)"
    using C6_scores_count_plies [OF wfA ox mA o dA uA] by blast
  from this [rule_format, of 1]
  have "minimax 10 scenarioA 1 False ''O'' ''X'' =
            Some (Fin (- 10 + (1 + int 1)), scenarioA)"
    using n1 fA by simp
  then have vA: "minimax 10 scenarioA 1 False ''O'' ''X'' = Some (Fin (- 8), scenarioA)"
    by simp
  show ?thesis using wf2 f2 f0 fA v2 v0 vA by blast
qed

subsection \<open>C5: the first move of maximal score\<close>

text \<open>
  C5: on a 3 by 3 board with at least one empty cell, for a non-empty symbol and a
  bound on nested calls of at least the number of empty cells, every available move
  has an integer score (the result of \<open>minimax\<close> at depth 0 on the board with the move
  made, the opponent to move), and \<open>getBestMove\<close> returns the first move, in the order
  of \<open>getAvailableMoves\<close>, whose score is the maximum of these scores. That order is
  row-major: the available moves are the empty cells among
  \<open>(0,0), (0,1), (0,2), (1,0), \<dots>, (2,2)\<close>, in this order. On the empty board with X to
  move the result is \<open>(0, 0)\<close>.
\<close>

theorem C5_first_maximal_move:
  "(wf_board board \<and> aiSymbol \<noteq> '''' \<and> getAvailableMoves board \<noteq> [] \<and>
    length (getAvailableMoves board) \<le> fuel \<longrightarrow>
      (\<exists>sc m.
        (\<forall>(row, col) \<in> set (getAvailableMoves board).
            minimax fuel (set_cell board row col aiSymbol) 0 False aiSymbol
              (if aiSymbol = ''X'' then ''O'' else ''X'') =
            Some (Fin (sc (row, col)), set_cell board row col aiSymbol)) \<and>
        getBestMove fuel board aiSymbol = Some (m, board) \<and>
        find (\<lambda>m. sc m = Max (sc ` set (getAvailableMoves board))) (getAvailableMoves board) =
          Some m)) \<and>
   getAvailableMoves board =
     filter (\<lambda>(row, col). cell_at board row col = Some '''')
       [(0, 0), (0, 1), (0, 2), (1, 0), (1, 1), (1, 2), (2, 0), (2, 1), (2, 2)] \<and>
   getBestMove 9 emptyBoard ''X'' = Some ((0, 0), emptyBoard)"
proof (intro conjI impI)
  assume a: "wf_board board \<and> aiSymbol \<noteq> '''' \<and> getAvailableMoves board \<noteq> [] \<and>
    length (getAvailableMoves board) \<le> fuel"
  show "\<exists>sc m.
        (\<forall>(row, col) \<in> set (getAvailableMoves board).
            minimax fuel (set_cell board row col aiSymbol) 0 False aiSymbol
              (if aiSymbol = ''X'' then ''O'' else ''X'') =
            Some (Fin (sc (row, col)), set_cell board row col aiSymbol)) \<and>
        getBestMove fuel board aiSymbol = Some (m, board) \<and>
        find (\<lambda>m. sc m = Max (sc ` set (getAvailableMoves board))) (getAvailableMoves board) =
          Some m"
    by (rule getBestMove_general) (use a in simp_all)
next
  show "getAvailableMoves board =
     filter (\<lambda>(row, col). cell_at board row col = Some '''')
       [(0, 0), (0, 1), (0, 2), (1, 0), (1, 1), (1, 2), (2, 0), (2, 1), (2, 2)]"
    using getAvailableMoves_filter [of board] by (simp only: cells_def)
next
  show "getBestMove 9 emptyBoard ''X'' = Some ((0, 0), emptyBoard)"
    by (rule getBestMove_emptyBoard)
qed

text \<open>
  C5, witness: scenario A, where the scores of the three available moves are 10, 8 and
  10, and the first of the two moves of score 10 is returned.
\<close>

theorem C5_first_maximal_move_witness:
  "wf_board scenarioA \<and> ''X'' \<noteq> '''' \<and> getAvailableMoves scenarioA \<noteq> [] \<and>
   length (getAvailableMoves scenarioA) \<le> 10 \<and>
   (\<exists>sc :: move \<Rightarrow> int. sc (2, 0) = 10 \<and> sc (2, 1) = 8 \<and> sc (2, 2) = 10 \<and>
      find (\<lambda>m. sc m = Max (sc ` set (getAvailableMoves scenarioA)))
        (getAvailableMoves scenarioA) = Some (2, 0)) \<and>
   getBestMove 10 scenarioA ''X'' = Some ((2, 0), scenarioA)"
proof -
  have wf: "wf_board scenarioA" by (simp add: scenarioA_def wf_board_def)
  have mv: "getAvailableMoves scenarioA = [(2, 0), (2, 1), (2, 2)]" by code_simp
  have h: "wf_board scenarioA \<and> ''X'' \<noteq> '''' \<and> getAvailableMoves scenarioA \<noteq> [] \<and>
    length (getAvailableMoves scenarioA) \<le> 10"
    using wf mv by simp
  obtain sc m where
    sc: "\<forall>(row, col) \<in> set (getAvailableMoves scenarioA).
            minimax 10 (set_cell scenarioA row col ''X'') 0 False ''X''
              (if ''X'' = ''X'' then ''O'' else ''X'') =
            Some (Fin (sc (row, col)), set_cell scenarioA row col ''X'')"
    and g: "getBestMove 10 scenarioA ''X'' = Some (m, scenarioA)"
    and f: "find (\<lambda>m. sc m = Max (sc ` set (getAvailableMoves scenarioA)))
              (getAvailableMoves scenarioA) = Some m"
    using C5_first_maximal_move [of scenarioA "''X''" 10] h by blast
  have v0: "map_option fst (minimax 10 (set_cell scenarioA 2 0 ''X'') 0 False ''X'' ''O'') =
      Some (Fin 10)" by code_simp
  have v1: "map_option fst (minimax 10 (set_cell scenarioA 2 1 ''X'') 0 False ''X'' ''O'') =
      Some (Fin 8)" by code_simp
  have v2: "map_option fst (minimax 10 (set_cell scenarioA 2 2 ''X'') 0 False ''X'' ''O'') =
      Some (Fin 10)" by code_simp
  have s0: "sc (2, 0) = 10" using sc v0 unfolding mv by simp
  have s1: "sc (2, 1) = 8" using sc v1 unfolding mv by simp
  have s2: "sc (2, 2) = 10" using sc v2 unfolding mv by simp
  have "find (\<lambda>m. sc m = Max (sc ` set (getAvailableMoves scenarioA)))
              (getAvailableMoves scenarioA) = Some (2, 0)"
    unfolding mv by (simp add: s0 s1 s2)
  then have m: "m = (2, 0)" using f by simp
  show ?thesis using h s0 s1 s2 f g unfolding m by blast
qed

end
